theory Spec2Isabelle
  imports Main "HOL-Library.Char_ord" "HOL-Library.List_Lexorder" "HOL-Library.AList"
    "HOL-Library.Multiset" "HOL-Library.Sublist"
begin

section \<open>Python values and errors\<close>

text \<open>
  \<^verbatim>\<open>Loop.py\<close> keeps its progress in the file \<^verbatim>\<open>.ai-loop-state.json\<close>. The value it
  loads is whatever \<^verbatim>\<open>json.loads\<close> returns, so the model has a type of JSON values.
  A Python \<^verbatim>\<open>dict\<close> is insertion ordered with unique keys: it is an association list
  whose keys are distinct (\<open>wf_json\<close> below). Python text is a \<open>string\<close>; a character
  stands for the code point of the same number (0 to 255).

  Outside the model, and answered by \<open>OutsideModel\<close> wherever the parser meets them:
  floating-point literals (\<^verbatim>\<open>1.5\<close>, \<^verbatim>\<open>1e3\<close>, \<^verbatim>\<open>NaN\<close>, \<^verbatim>\<open>Infinity\<close>), escapes of code
  points above 255, and an exhausted recursion budget.
\<close>

datatype py_error =
    JSONDecodeError
  | KeyError
  | TypeError
  | AttributeError
  | ReadError
  | LaunchError
  | OutsideModel

datatype json =
    JNull
  | JBool bool
  | JInt int
  | JStr string
  | JArr "json list"
  | JObj "(string \<times> json) list"

section \<open>\<^verbatim>\<open>json.dumps(state, indent=2)\<close>\<close>

definition hex_digit :: "nat \<Rightarrow> char" where
  "hex_digit n = (if n < 10 then char_of (48 + n) else char_of (87 + n))"

text \<open>
  \<^verbatim>\<open>ensure_ascii\<close> is on by default: the quote, the backslash and everything outside
  the printable ASCII range are escaped, the rest is copied.
\<close>

definition escape_char :: "char \<Rightarrow> string" where
  "escape_char c =
     (if c = CHR 0x22 then [CHR 0x5C, CHR 0x22]
      else if c = CHR 0x5C then [CHR 0x5C, CHR 0x5C]
      else if c = CHR 0x0A then [CHR 0x5C, CHR ''n'']
      else if c = CHR 0x0D then [CHR 0x5C, CHR ''r'']
      else if c = CHR 0x09 then [CHR 0x5C, CHR ''t'']
      else if c = CHR 0x08 then [CHR 0x5C, CHR ''b'']
      else if c = CHR 0x0C then [CHR 0x5C, CHR ''f'']
      else if 32 \<le> (of_char c :: nat) \<and> (of_char c :: nat) \<le> 126 then [c]
      else [CHR 0x5C, CHR ''u'', CHR ''0'', CHR ''0'',
            hex_digit ((of_char c :: nat) div 16), hex_digit ((of_char c :: nat) mod 16)])"

definition encode_string :: "string \<Rightarrow> string" where
  "encode_string s = CHR 0x22 # concat (map escape_char s) @ [CHR 0x22]"

fun show_nat :: "nat \<Rightarrow> string" where
  "show_nat n =
     (if n < 10 then [char_of (48 + n)]
      else show_nat (n div 10) @ [char_of (48 + n mod 10)])"

declare show_nat.simps [simp del]

definition show_int :: "int \<Rightarrow> string" where
  "show_int i = (if i < 0 then CHR ''-'' # show_nat (nat (- i)) else show_nat (nat i))"

definition newline_indent :: "nat \<Rightarrow> string" where
  "newline_indent lvl = CHR 0x0A # replicate (2 * lvl) CHR '' ''"

text \<open>
  The encoder at nesting level \<open>lvl\<close>. An empty list or dict is written closed; a
  non-empty one puts every item on a line of its own, indented two spaces a level,
  with \<^verbatim>\<open>,\<close> between items and \<^verbatim>\<open>: \<close> after a key.
\<close>

fun dumps_at :: "nat \<Rightarrow> json \<Rightarrow> string"
  and dumps_items :: "nat \<Rightarrow> json list \<Rightarrow> string"
  and dumps_pairs :: "nat \<Rightarrow> (string \<times> json) list \<Rightarrow> string" where
  "dumps_at lvl JNull = ''null''"
| "dumps_at lvl (JBool b) = (if b then ''true'' else ''false'')"
| "dumps_at lvl (JInt i) = show_int i"
| "dumps_at lvl (JStr s) = encode_string s"
| "dumps_at lvl (JArr vs) =
     (if vs = [] then ''[]''
      else ''['' @ newline_indent (Suc lvl) @ dumps_items (Suc lvl) vs
           @ newline_indent lvl @ '']'')"
| "dumps_at lvl (JObj kvs) =
     (if kvs = [] then ''{}''
      else ''{'' @ newline_indent (Suc lvl) @ dumps_pairs (Suc lvl) kvs
           @ newline_indent lvl @ ''}'')"
| "dumps_items lvl [] = []"
| "dumps_items lvl [v] = dumps_at lvl v"
| "dumps_items lvl (v # w # vs) =
     dumps_at lvl v @ '','' @ newline_indent lvl @ dumps_items lvl (w # vs)"
| "dumps_pairs lvl [] = []"
| "dumps_pairs lvl [(k, v)] = encode_string k @ '': '' @ dumps_at lvl v"
| "dumps_pairs lvl ((k, v) # p # ps) =
     encode_string k @ '': '' @ dumps_at lvl v @ '','' @ newline_indent lvl
     @ dumps_pairs lvl (p # ps)"

definition dumps :: "json \<Rightarrow> string" where
  "dumps v = dumps_at 0 v"

section \<open>\<^verbatim>\<open>json.loads\<close>\<close>

definition is_ws :: "char \<Rightarrow> bool" where
  "is_ws c \<longleftrightarrow> c = CHR '' '' \<or> c = CHR 0x09 \<or> c = CHR 0x0A \<or> c = CHR 0x0D"

definition skip_ws :: "string \<Rightarrow> string" where
  "skip_ws s = dropWhile is_ws s"

definition is_digit :: "char \<Rightarrow> bool" where
  "is_digit c \<longleftrightarrow> 48 \<le> (of_char c :: nat) \<and> (of_char c :: nat) \<le> 57"

definition digits_val :: "string \<Rightarrow> nat" where
  "digits_val ds = foldl (\<lambda>a d. 10 * a + (of_char d - 48)) 0 ds"

definition hex_val :: "char \<Rightarrow> nat option" where
  "hex_val c =
     (let n = (of_char c :: nat) in
      if 48 \<le> n \<and> n \<le> 57 then Some (n - 48)
      else if 97 \<le> n \<and> n \<le> 102 then Some (n - 87)
      else if 65 \<le> n \<and> n \<le> 70 then Some (n - 55)
      else None)"

definition unescape :: "char \<Rightarrow> char option" where
  "unescape e =
     (if e = CHR 0x22 then Some (CHR 0x22)
      else if e = CHR 0x5C then Some (CHR 0x5C)
      else if e = CHR ''/'' then Some (CHR ''/'')
      else if e = CHR ''b'' then Some (CHR 0x08)
      else if e = CHR ''f'' then Some (CHR 0x0C)
      else if e = CHR ''n'' then Some (CHR 0x0A)
      else if e = CHR ''r'' then Some (CHR 0x0D)
      else if e = CHR ''t'' then Some (CHR 0x09)
      else None)"

definition cons_char :: "char \<Rightarrow> py_error + (string \<times> string) \<Rightarrow> py_error + (string \<times> string)" where
  "cons_char c r = (case r of Inl e \<Rightarrow> Inl e | Inr (s, rest) \<Rightarrow> Inr (c # s, rest))"

text \<open>
  The body of a string literal, after its opening quote (\<^verbatim>\<open>scanstring\<close>, strict):
  it ends at the first unescaped quote, a raw control character is an error, and a
  backslash starts one of the short escapes or \<^verbatim>\<open>\uXXXX\<close>.
\<close>

fun scanstring :: "string \<Rightarrow> py_error + (string \<times> string)" where
  "scanstring [] = Inl JSONDecodeError"
| "scanstring (c # r) =
     (if c = CHR 0x22 then Inr ([], r)
      else if c = CHR 0x5C then
        (case r of
           [] \<Rightarrow> Inl JSONDecodeError
         | e # r1 \<Rightarrow>
             if e = CHR ''u'' then
               (case r1 of
                  h1 # h2 # h3 # h4 # r2 \<Rightarrow>
                    (case (hex_val h1, hex_val h2, hex_val h3, hex_val h4) of
                       (Some a, Some b, Some c, Some d) \<Rightarrow>
                         (if a = 0 \<and> b = 0 then cons_char (char_of (16 * c + d)) (scanstring r2)
                          else Inl OutsideModel)
                     | _ \<Rightarrow> Inl JSONDecodeError)
                | _ \<Rightarrow> Inl JSONDecodeError)
             else
               (case unescape e of
                  None \<Rightarrow> Inl JSONDecodeError
                | Some d \<Rightarrow> cons_char d (scanstring r1)))
      else if (of_char c :: nat) < 32 then Inl JSONDecodeError
      else cons_char c (scanstring r))"

text \<open>
  A number: an optional minus sign, then \<^verbatim>\<open>0\<close> or a digit string without a leading
  zero. A fraction or an exponent after it makes a float, which is outside the model.
\<close>

definition is_float_tail :: "string \<Rightarrow> bool" where
  "is_float_tail s =
     (case s of
        [] \<Rightarrow> False
      | c # r \<Rightarrow>
          if c = CHR ''.'' then (case r of [] \<Rightarrow> False | d # _ \<Rightarrow> is_digit d)
          else if c = CHR ''e'' \<or> c = CHR ''E'' then
            (case r of
               [] \<Rightarrow> False
             | d # r1 \<Rightarrow>
                 if d = CHR ''+'' \<or> d = CHR ''-'' then
                   (case r1 of [] \<Rightarrow> False | d1 # _ \<Rightarrow> is_digit d1)
                 else is_digit d)
          else False)"

definition int_digits :: "string \<Rightarrow> string" where
  "int_digits t =
     (case t of
        [] \<Rightarrow> []
      | c # r \<Rightarrow> if c = CHR ''0'' then [c] else takeWhile is_digit t)"

definition scan_number :: "string \<Rightarrow> py_error + (json \<times> string)" where
  "scan_number s =
     (let neg = (s \<noteq> [] \<and> hd s = CHR ''-'');
          t = (if neg then tl s else s);
          ds = int_digits t;
          rest = drop (length ds) t
      in if ds = [] then
           (if take 3 s = ''NaN'' \<or> take 8 s = ''Infinity'' \<or> take 9 s = ''-Infinity''
            then Inl OutsideModel else Inl JSONDecodeError)
         else if is_float_tail rest then Inl OutsideModel
         else Inr (JInt (if neg then - int (digits_val ds) else int (digits_val ds)), rest))"

text \<open>
  \<^verbatim>\<open>dict(pairs)\<close>: a repeated key keeps its first position and its last value.
\<close>

definition dict_of :: "(string \<times> json) list \<Rightarrow> (string \<times> json) list" where
  "dict_of ps = foldl (\<lambda>d (k, v). AList.update k v d) [] ps"

text \<open>
  The scanner. The first argument bounds the number of nested and chained calls;
  \<open>loads\<close> starts it above the length of the text, and every call consumes a character.
\<close>

fun parse_value :: "nat \<Rightarrow> string \<Rightarrow> py_error + (json \<times> string)"
  and parse_items :: "nat \<Rightarrow> string \<Rightarrow> py_error + (json list \<times> string)"
  and parse_pairs :: "nat \<Rightarrow> string \<Rightarrow> py_error + ((string \<times> json) list \<times> string)" where
  "parse_value 0 s = Inl OutsideModel"
| "parse_value (Suc n) s =
     (case s of
        [] \<Rightarrow> Inl JSONDecodeError
      | c # r \<Rightarrow>
          if c = CHR 0x22 then
            (case scanstring r of
               Inl e \<Rightarrow> Inl e
             | Inr (str, r1) \<Rightarrow> Inr (JStr str, r1))
          else if c = CHR ''{'' then
            (case skip_ws r of
               [] \<Rightarrow> Inl JSONDecodeError
             | d # r1 \<Rightarrow>
                 if d = CHR ''}'' then Inr (JObj [], r1)
                 else
                   (case parse_pairs n (d # r1) of
                      Inl e \<Rightarrow> Inl e
                    | Inr (ps, r2) \<Rightarrow> Inr (JObj (dict_of ps), r2)))
          else if c = CHR ''['' then
            (case skip_ws r of
               [] \<Rightarrow> Inl JSONDecodeError
             | d # r1 \<Rightarrow>
                 if d = CHR '']'' then Inr (JArr [], r1)
                 else
                   (case parse_items n (d # r1) of
                      Inl e \<Rightarrow> Inl e
                    | Inr (vs, r2) \<Rightarrow> Inr (JArr vs, r2)))
          else if take 4 s = ''null'' then Inr (JNull, drop 4 s)
          else if take 4 s = ''true'' then Inr (JBool True, drop 4 s)
          else if take 5 s = ''false'' then Inr (JBool False, drop 5 s)
          else scan_number s)"
| "parse_items 0 s = Inl OutsideModel"
| "parse_items (Suc n) s =
     (case parse_value n s of
        Inl e \<Rightarrow> Inl e
      | Inr (v, r) \<Rightarrow>
          (case skip_ws r of
             [] \<Rightarrow> Inl JSONDecodeError
           | d # r1 \<Rightarrow>
               if d = CHR '']'' then Inr ([v], r1)
               else if d = CHR '','' then
                 (case parse_items n (skip_ws r1) of
                    Inl e \<Rightarrow> Inl e
                  | Inr (vs, r2) \<Rightarrow> Inr (v # vs, r2))
               else Inl JSONDecodeError))"
| "parse_pairs 0 s = Inl OutsideModel"
| "parse_pairs (Suc n) s =
     (case s of
        [] \<Rightarrow> Inl JSONDecodeError
      | c # r \<Rightarrow>
          if c \<noteq> CHR 0x22 then Inl JSONDecodeError
          else
            (case scanstring r of
               Inl e \<Rightarrow> Inl e
             | Inr (k, r1) \<Rightarrow>
                 (case skip_ws r1 of
                    [] \<Rightarrow> Inl JSONDecodeError
                  | c1 # r2 \<Rightarrow>
                      if c1 \<noteq> CHR '':'' then Inl JSONDecodeError
                      else
                        (case parse_value n (skip_ws r2) of
                           Inl e \<Rightarrow> Inl e
                         | Inr (v, r3) \<Rightarrow>
                             (case skip_ws r3 of
                                [] \<Rightarrow> Inl JSONDecodeError
                              | d # r4 \<Rightarrow>
                                  if d = CHR ''}'' then Inr ([(k, v)], r4)
                                  else if d = CHR '','' then
                                    (case parse_pairs n (skip_ws r4) of
                                       Inl e \<Rightarrow> Inl e
                                     | Inr (ps, r5) \<Rightarrow> Inr ((k, v) # ps, r5))
                                  else Inl JSONDecodeError)))))"

text \<open>
  \<^verbatim>\<open>json.loads\<close>: leading whitespace, one value, trailing whitespace, and nothing
  else (\<^verbatim>\<open>Extra data\<close> otherwise).
\<close>

definition loads :: "string \<Rightarrow> py_error + json" where
  "loads s =
     (case parse_value (Suc (length s)) (skip_ws s) of
        Inl e \<Rightarrow> Inl e
      | Inr (v, r) \<Rightarrow> if skip_ws r = [] then Inr v else Inl JSONDecodeError)"

section \<open>The file system and the external processes\<close>

text \<open>
  What the script sees of the machine:
  \<^item> \<open>specs_dir\<close>: \<^verbatim>\<open>apps/crm/docs/specs\<close>. \<open>None\<close> when the path does not exist,
    otherwise its entries in the order the operating system lists them, each with its
    text (\<open>None\<close> for an entry that \<^verbatim>\<open>read_text(encoding="utf-8")\<close> cannot read);
  \<^item> \<open>state_file\<close>: the text of \<^verbatim>\<open>.ai-loop-state.json\<close>, \<open>None\<close> when it is absent;
  \<^item> \<open>calls\<close>: how many times \<^verbatim>\<open>subprocess.run\<close> has been called;
  \<^item> \<open>log\<close>: every effect of the run, in order.
  The external commands are an environment: the result of the \<open>i\<close>-th call of
  \<^verbatim>\<open>subprocess.run\<close>, given its argument list and its standard input. They are assumed
  to leave the specs directory and the state file alone. Paths compare as on POSIX.
\<close>

datatype proc =
    Exited int string string
  | Not_launched

type_synonym env = "nat \<Rightarrow> string list \<Rightarrow> string option \<Rightarrow> proc"

datatype event =
    Print_not_found
  | Print_all_done
  | Print_processing string
  | Print_cmd "string list"
  | Print_output string
  | Print_claude_failed
  | Print_verify_failed
  | Print_completed string
  | Exec "string list" "string option" proc
  | Write_state string
  | Sleep

record sys =
  specs_dir :: "(string \<times> string option) list option"
  state_file :: "string option"
  calls :: nat
  log :: "event list"

datatype outcome =
    All_done
  | Agent_failed
  | Verify_failed
  | Sys_exit int
  | Raised py_error

text \<open>The exit status of the process: a \<^verbatim>\<open>return\<close> from \<^verbatim>\<open>main\<close> ends it with 0.\<close>

fun exit_status :: "outcome \<Rightarrow> int" where
  "exit_status All_done = 0"
| "exit_status Agent_failed = 0"
| "exit_status Verify_failed = 0"
| "exit_status (Sys_exit n) = n"
| "exit_status (Raised e) = 1"

definition emit :: "event \<Rightarrow> sys \<Rightarrow> sys" where
  "emit ev w = w\<lparr>log := log w @ [ev]\<rparr>"

definition VERIFY_COMMANDS :: "string list list" where
  "VERIFY_COMMANDS =
     [[''pnpm'', ''-C'', ''apps/crm'', ''tsc''], [''pnpm'', ''-C'', ''apps/crm'', ''build'']]"

section \<open>Helpers\<close>

definition initial_state :: json where
  "initial_state = JObj [(''done'', JArr [])]"

definition load_state :: "sys \<Rightarrow> py_error + json" where
  "load_state w =
     (case state_file w of
        Some t \<Rightarrow> loads t
      | None \<Rightarrow> Inr initial_state)"

text \<open>
  \<^verbatim>\<open>Path.write_text\<close> opens the file for writing, which empties it, and then writes
  the text. \<open>write_text_upto k\<close> is the file after the first \<open>k\<close> steps of that: none,
  the truncation, and then one more character each.
\<close>

definition write_text_upto :: "nat \<Rightarrow> string \<Rightarrow> string option \<Rightarrow> string option" where
  "write_text_upto k new old = (if k = 0 then old else Some (take (k - 1) new))"

definition write_text :: "string \<Rightarrow> string option \<Rightarrow> string option" where
  "write_text new old = write_text_upto (Suc (length new)) new old"

definition save_state :: "json \<Rightarrow> sys \<Rightarrow> sys" where
  "save_state st w =
     emit (Write_state (dumps st)) (w\<lparr>state_file := write_text (dumps st) (state_file w)\<rparr>)"

text \<open>\<open>save_state\<close> when the process dies after \<open>k\<close> steps of the write.\<close>

definition save_state_interrupted :: "nat \<Rightarrow> json \<Rightarrow> sys \<Rightarrow> sys" where
  "save_state_interrupted k st w =
     w\<lparr>state_file := write_text_upto k (dumps st) (state_file w)\<rparr>"

text \<open>
  \<^verbatim>\<open>spec.name not in done\<close>: membership in a list, among the keys of a dict, as a
  substring of a string; any other value is not iterable.
\<close>

fun py_in :: "string \<Rightarrow> json \<Rightarrow> py_error + bool" where
  "py_in x (JArr vs) = Inr (JStr x \<in> set vs)"
| "py_in x (JObj kvs) = Inr (x \<in> set (map fst kvs))"
| "py_in x (JStr s) = Inr (sublist x s)"
| "py_in x JNull = Inl TypeError"
| "py_in x (JBool b) = Inl TypeError"
| "py_in x (JInt i) = Inl TypeError"

text \<open>\<^verbatim>\<open>sorted(SPECS_DIR.glob("*.md"))\<close>, as names.\<close>

definition glob_md :: "sys \<Rightarrow> string list" where
  "glob_md w =
     (case specs_dir w of
        None \<Rightarrow> []
      | Some entries \<Rightarrow> filter (suffix ''.md'') (map fst entries))"

definition sorted_specs :: "sys \<Rightarrow> string list" where
  "sorted_specs w = sort (glob_md w)"

fun first_not_in :: "json \<Rightarrow> string list \<Rightarrow> py_error + string option" where
  "first_not_in done [] = Inr None"
| "first_not_in done (spec # specs) =
     (case py_in spec done of
        Inl e \<Rightarrow> Inl e
      | Inr b \<Rightarrow> if \<not> b then Inr (Some spec) else first_not_in done specs)"

definition get_next_spec :: "json \<Rightarrow> sys \<Rightarrow> py_error + string option" where
  "get_next_spec done w = first_not_in done (sorted_specs w)"

definition subprocess_run :: "env \<Rightarrow> string list \<Rightarrow> string option \<Rightarrow> sys \<Rightarrow> proc \<times> sys" where
  "subprocess_run env cmd inp w =
     (let r = env (calls w) cmd inp
      in (r, emit (Exec cmd inp r) (w\<lparr>calls := Suc (calls w)\<rparr>)))"

definition run_cmd :: "env \<Rightarrow> string list \<Rightarrow> sys \<Rightarrow> (py_error + int \<times> string) \<times> sys" where
  "run_cmd env cmd w =
     (case subprocess_run env cmd None (emit (Print_cmd cmd) w) of
        (Not_launched, w1) \<Rightarrow> (Inl LaunchError, w1)
      | (Exited rc out err, w1) \<Rightarrow> (Inr (rc, out @ err), emit (Print_output (out @ err)) w1))"

definition claude_cmd :: "string list" where
  "claude_cmd = [''claude'', ''-p'', ''--permission-mode'', ''acceptEdits'', ''--add-dir'', ''.'']"

definition run_claude :: "env \<Rightarrow> string \<Rightarrow> sys \<Rightarrow> (py_error + int \<times> string) \<times> sys" where
  "run_claude env prompt w =
     (case subprocess_run env claude_cmd (Some prompt) w of
        (Not_launched, w1) \<Rightarrow> (Inl LaunchError, w1)
      | (Exited rc out err, w1) \<Rightarrow>
          (Inr (rc, out @ err), emit (Print_output (out @ err)) (emit (Print_cmd claude_cmd) w1)))"

section \<open>The main loop\<close>

definition read_text :: "string \<Rightarrow> sys \<Rightarrow> py_error + string" where
  "read_text name w =
     (case specs_dir w of
        None \<Rightarrow> Inl ReadError
      | Some entries \<Rightarrow>
          (case map_of entries name of
             Some (Some t) \<Rightarrow> Inr t
           | _ \<Rightarrow> Inl ReadError))"

definition nl :: string where
  "nl = [CHR 0x0A]"

definition prompt_rules :: string where
  "prompt_rules =
     nl @ ''You are a senior coding agent working in a monorepo.'' @ nl
     @ nl
     @ ''RULES:'' @ nl
     @ ''- Implement ONLY what this spec asks.'' @ nl
     @ ''- Do NOT work ahead.'' @ nl
     @ ''- Make minimal, safe changes.'' @ nl
     @ ''- Respect existing architecture and patterns.'' @ nl
     @ ''- If something is unclear, stop and explain instead of guessing.'' @ nl
     @ nl
     @ ''After making changes, output:'' @ nl
     @ ''1) Summary'' @ nl
     @ ''2) Files modified'' @ nl
     @ ''3) Commands run'' @ nl
     @ ''4) Verification results'' @ nl
     @ ''5) Risks / follow-ups'' @ nl
     @ nl
     @ ''SPEC:'' @ nl"

definition make_prompt :: "string \<Rightarrow> string" where
  "make_prompt spec_text = prompt_rules @ spec_text @ nl"

text \<open>\<^verbatim>\<open>state["done"]\<close>.\<close>

fun get_done :: "json \<Rightarrow> py_error + json" where
  "get_done (JObj kvs) = (case map_of kvs ''done'' of None \<Rightarrow> Inl KeyError | Some v \<Rightarrow> Inr v)"
| "get_done v = Inl TypeError"

text \<open>\<^verbatim>\<open>state["done"].append(spec.name)\<close>: the list grows in place, inside the dict.\<close>

definition append_done :: "string \<Rightarrow> json \<Rightarrow> py_error + json" where
  "append_done name st =
     (case get_done st of
        Inl e \<Rightarrow> Inl e
      | Inr (JArr vs) \<Rightarrow>
          (case st of
             JObj kvs \<Rightarrow> Inr (JObj (AList.update ''done'' (JArr (vs @ [JStr name])) kvs))
           | _ \<Rightarrow> Inl TypeError)
      | Inr _ \<Rightarrow> Inl AttributeError)"

text \<open>
  The verification loop of \<^verbatim>\<open>main\<close>: \<open>Inr True\<close> when every command exited with 0,
  \<open>Inr False\<close> at the first that did not.
\<close>

fun verify_loop :: "env \<Rightarrow> string list list \<Rightarrow> sys \<Rightarrow> (py_error + bool) \<times> sys" where
  "verify_loop env [] w = (Inr True, w)"
| "verify_loop env (cmd # cmds) w =
     (case run_cmd env cmd w of
        (Inl e, w1) \<Rightarrow> (Inl e, w1)
      | (Inr (rc, out), w1) \<Rightarrow>
          if rc \<noteq> 0 then (Inr False, emit Print_verify_failed w1)
          else verify_loop env cmds w1)"

text \<open>
  One pass through the body of \<^verbatim>\<open>while True\<close>: \<open>Inl\<close> when \<^verbatim>\<open>main\<close> ends there,
  \<open>Inr\<close> with the new state when the loop goes round again.
\<close>

definition iteration :: "env \<Rightarrow> json \<times> sys \<Rightarrow> (outcome \<times> sys) + (json \<times> sys)" where
  "iteration env s =
     (case s of (st, w) \<Rightarrow>
       (case get_done st of
          Inl e \<Rightarrow> Inl (Raised e, w)
        | Inr done \<Rightarrow>
            (case get_next_spec done w of
               Inl e \<Rightarrow> Inl (Raised e, w)
             | Inr None \<Rightarrow> Inl (All_done, emit Print_all_done w)
             | Inr (Some name) \<Rightarrow>
                 (let w1 = emit (Print_processing name) w in
                  case read_text name w1 of
                    Inl e \<Rightarrow> Inl (Raised e, w1)
                  | Inr spec_text \<Rightarrow>
                      (case run_claude env (make_prompt spec_text) w1 of
                         (Inl e, w2) \<Rightarrow> Inl (Raised e, w2)
                       | (Inr (code, out), w2) \<Rightarrow>
                           if code \<noteq> 0 then Inl (Agent_failed, emit Print_claude_failed w2)
                           else
                             (case verify_loop env VERIFY_COMMANDS w2 of
                                (Inl e, w3) \<Rightarrow> Inl (Raised e, w3)
                              | (Inr False, w3) \<Rightarrow> Inl (Verify_failed, w3)
                              | (Inr True, w3) \<Rightarrow>
                                  (case append_done name st of
                                     Inl e \<Rightarrow> Inl (Raised e, w3)
                                   | Inr st' \<Rightarrow>
                                       Inr (st',
                                         emit Sleep
                                           (emit (Print_completed name)
                                             (save_state st' w3))))))))))"

text \<open>The specs that \<^verbatim>\<open>get_next_spec\<close> can still return.\<close>

definition pending :: "json \<times> sys \<Rightarrow> nat" where
  "pending s =
     (case s of (st, w) \<Rightarrow>
        (case get_done st of
           Inr (JArr vs) \<Rightarrow> length (filter (\<lambda>n. JStr n \<notin> set vs) (sorted_specs w))
         | _ \<Rightarrow> 0))"

subsection \<open>What the helpers leave alone\<close>

lemma emit_fields [simp]:
  "specs_dir (emit ev w) = specs_dir w"
  "state_file (emit ev w) = state_file w"
  "calls (emit ev w) = calls w"
  "log (emit ev w) = log w @ [ev]"
  by (simp_all add: emit_def)

lemma subprocess_run_fields:
  assumes "subprocess_run env cmd inp w = (r, w1)"
  shows "specs_dir w1 = specs_dir w" and "state_file w1 = state_file w"
    and "calls w1 = Suc (calls w)" and "log w1 = log w @ [Exec cmd inp r]"
    and "r = env (calls w) cmd inp"
  using assms by (auto simp: subprocess_run_def Let_def)

lemma run_cmd_files:
  assumes "run_cmd env cmd w = (r, w1)"
  shows "specs_dir w1 = specs_dir w" and "state_file w1 = state_file w"
  using assms
  by (auto simp: run_cmd_def subprocess_run_def Let_def split: proc.splits)

lemma run_claude_files:
  assumes "run_claude env p w = (r, w1)"
  shows "specs_dir w1 = specs_dir w" and "state_file w1 = state_file w"
  using assms
  by (auto simp: run_claude_def subprocess_run_def Let_def split: proc.splits)

lemma verify_loop_files:
  "verify_loop env cmds w = (r, w1) \<Longrightarrow> specs_dir w1 = specs_dir w \<and> state_file w1 = state_file w"
proof (induction cmds arbitrary: w)
  case Nil
  then show ?case by simp
next
  case (Cons cmd cmds)
  obtain a w2 where rc: "run_cmd env cmd w = (a, w2)" by (cases "run_cmd env cmd w")
  note f = run_cmd_files [OF rc]
  show ?case
  proof (cases a)
    case (Inl e)
    with Cons.prems rc f show ?thesis by simp
  next
    case (Inr p)
    obtain rc' out where p: "p = (rc', out)" by (cases p)
    show ?thesis
    proof (cases "rc' = 0")
      case True
      with Cons.prems rc Inr p have "verify_loop env cmds w2 = (r, w1)" by simp
      from Cons.IH [OF this] f show ?thesis by simp
    next
      case False
      with Cons.prems rc Inr p f show ?thesis by auto
    qed
  qed
qed

lemma first_not_in_list:
  "first_not_in (JArr vs) xs = Inr (find (\<lambda>n. JStr n \<notin> set vs) xs)"
  by (induction xs) simp_all

lemma get_done_update:
  "get_done (JObj (AList.update ''done'' v kvs)) = Inr v"
  by (simp add: update_conv')

lemma sorted_specs_emit [simp]: "sorted_specs (emit ev w) = sorted_specs w"
  by (simp add: sorted_specs_def glob_md_def)

lemma save_state_fields [simp]:
  "specs_dir (save_state st w) = specs_dir w"
  "state_file (save_state st w) = Some (dumps st)"
  "calls (save_state st w) = calls w"
  "log (save_state st w) = log w @ [Write_state (dumps st)]"
  by (simp_all add: save_state_def write_text_def write_text_upto_def)

lemma append_done_Inr:
  "append_done name st = Inr st' \<Longrightarrow>
     \<exists>kvs vs. st = JObj kvs \<and> map_of kvs ''done'' = Some (JArr vs)
       \<and> st' = JObj (AList.update ''done'' (JArr (vs @ [JStr name])) kvs)"
  by (cases st) (auto simp: append_done_def split: option.splits json.splits)

lemma iteration_Inr:
  assumes "iteration env (st, w) = Inr (st', w')"
  shows "\<exists>kvs vs name. st = JObj kvs \<and> map_of kvs ''done'' = Some (JArr vs)
           \<and> find (\<lambda>n. JStr n \<notin> set vs) (sorted_specs w) = Some name
           \<and> st' = JObj (AList.update ''done'' (JArr (vs @ [JStr name])) kvs)
           \<and> specs_dir w' = specs_dir w
           \<and> state_file w' = Some (dumps st')"
proof -
  from assms obtain dn where dn: "get_done st = Inr dn"
    by (auto simp: iteration_def split: sum.splits)
  from assms dn obtain name where nm: "get_next_spec dn w = Inr (Some name)"
    by (auto simp: iteration_def split: sum.splits option.splits)
  let ?w1 = "emit (Print_processing name) w"
  from assms dn nm obtain stx where stx: "read_text name ?w1 = Inr stx"
    by (auto simp: iteration_def Let_def split: sum.splits)
  obtain a w2 where rc: "run_claude env (make_prompt stx) ?w1 = (a, w2)"
    by (cases "run_claude env (make_prompt stx) ?w1")
  from assms dn nm stx rc obtain out where a: "a = Inr (0, out)"
    by (auto simp: iteration_def Let_def split: sum.splits if_splits)
  obtain b w3 where vl: "verify_loop env VERIFY_COMMANDS w2 = (b, w3)"
    by (cases "verify_loop env VERIFY_COMMANDS w2")
  from assms dn nm stx rc a vl have b: "b = Inr True"
    by (auto simp: iteration_def Let_def split: sum.splits if_splits bool.splits)
  from assms dn nm stx rc a vl b have ap: "append_done name st = Inr st'"
    and w': "w' = emit Sleep (emit (Print_completed name) (save_state st' w3))"
    by (auto simp: iteration_def Let_def split: sum.splits)
  from append_done_Inr [OF ap] obtain kvs vs where
    st: "st = JObj kvs" "map_of kvs ''done'' = Some (JArr vs)"
        "st' = JObj (AList.update ''done'' (JArr (vs @ [JStr name])) kvs)"
    by blast
  from st dn have "dn = JArr vs" by simp
  with nm have "find (\<lambda>n. JStr n \<notin> set vs) (sorted_specs w) = Some name"
    by (simp add: get_next_spec_def first_not_in_list)
  moreover have "specs_dir w' = specs_dir w"
    using w' verify_loop_files [OF vl] run_claude_files [OF rc] by simp
  moreover have "state_file w' = Some (dumps st')"
    using w' by simp
  ultimately show ?thesis using st by blast
qed

lemma pending_decreases:
  assumes "iteration env s = Inr s'"
  shows "pending s' < pending s"
proof -
  obtain st w where s: "s = (st, w)" by (cases s)
  obtain st' w' where s': "s' = (st', w')" by (cases s')
  from iteration_Inr [OF assms [unfolded s s']] obtain kvs vs name where
    st: "st = JObj kvs" "map_of kvs ''done'' = Some (JArr vs)"
    and f: "find (\<lambda>n. JStr n \<notin> set vs) (sorted_specs w) = Some name"
    and st': "st' = JObj (AList.update ''done'' (JArr (vs @ [JStr name])) kvs)"
    and sd: "specs_dir w' = specs_dir w"
    by blast
  from sd have ss: "sorted_specs w' = sorted_specs w"
    by (simp add: sorted_specs_def glob_md_def)
  let ?P = "\<lambda>n. JStr n \<notin> set vs"
  let ?xs = "filter ?P (sorted_specs w)"
  from f have "name \<in> set (sorted_specs w)" "?P name"
    by (auto simp: find_Some_iff)
  then have mem: "name \<in> set ?xs" by simp
  have "filter (\<lambda>n. JStr n \<notin> set (vs @ [JStr name])) (sorted_specs w)
        = filter (\<lambda>n. n \<noteq> name) ?xs"
    by (auto intro: filter_cong)
  moreover have "length (filter (\<lambda>n. n \<noteq> name) ?xs) < length ?xs"
    using mem by (intro length_filter_less [of name]) auto
  ultimately show ?thesis
    using st st' ss by (simp add: pending_def s s' update_conv')
qed

text \<open>
  \<^verbatim>\<open>while True\<close>. Every pass that goes round again has committed a spec that was
  pending, so the loop ends.
\<close>

function main_loop :: "env \<Rightarrow> json \<times> sys \<Rightarrow> outcome \<times> sys" where
  "main_loop env s =
     (case iteration env s of
        Inl r \<Rightarrow> r
      | Inr s' \<Rightarrow> main_loop env s')"
  by pat_completeness auto
termination
  by (relation "measure (\<lambda>(env, s). pending s)") (auto simp: pending_decreases)

declare main_loop.simps [simp del]

text \<open>\<^verbatim>\<open>main\<close>: the outcome of the run and the machine it leaves.\<close>

definition main :: "env \<Rightarrow> sys \<Rightarrow> outcome \<times> sys" where
  "main env w =
     (if specs_dir w = None then (Sys_exit 1, emit Print_not_found w)
      else
        (case load_state w of
           Inl e \<Rightarrow> (Raised e, w)
         | Inr st \<Rightarrow> main_loop env (st, w)))"

section \<open>Writing a state and reading it back\<close>

text \<open>
  \<^verbatim>\<open>json.loads(json.dumps(v, indent=2))\<close> is \<open>v\<close> again for every value whose dicts have
  distinct keys, and every value \<^verbatim>\<open>json.loads\<close> returns is of that kind.
\<close>

subsection \<open>Characters\<close>

lemma hex_val_hex_digit: "k < 16 \<Longrightarrow> hex_val (hex_digit k) = Some k"
  by (auto simp: hex_val_def hex_digit_def Let_def)

lemma hex_val_zero: "hex_val CHR ''0'' = Some 0"
  by (simp add: hex_val_def)

lemma scanstring_escape_char:
  "scanstring (escape_char c @ X) = cons_char c (scanstring X)"
proof -
  have lt: "(of_char c :: nat) < 256" by simp
  then have d: "(of_char c :: nat) div 16 < 16" by presburger
  have m: "(of_char c :: nat) mod 16 < 16" by simp
  have cb: "char_of (16 * ((of_char c :: nat) div 16) + (of_char c :: nat) mod 16) = c"
    by simp
  show ?thesis
    unfolding escape_char_def
    by (simp add: unescape_def hex_val_hex_digit [OF d] hex_val_hex_digit [OF m]
        hex_val_zero cb)
qed

lemma scanstring_concat:
  "scanstring (concat (map escape_char s) @ CHR 0x22 # rest) = Inr (s, rest)"
  by (induction s) (simp_all add: scanstring_escape_char cons_char_def)

lemma scanstring_encode:
  "encode_string s @ rest = CHR 0x22 # (concat (map escape_char s) @ CHR 0x22 # rest)"
  by (simp add: encode_string_def)

subsection \<open>Numbers\<close>

definition tail_ok :: "string \<Rightarrow> bool" where
  "tail_ok r = (case r of [] \<Rightarrow> True | c # _ \<Rightarrow> c = CHR '','' \<or> c = CHR 0x0A)"

lemma is_digit_char_of: "(k::nat) < 10 \<Longrightarrow> is_digit (char_of (48 + k))"
  by (simp add: is_digit_def)

lemma show_nat_digits: "c \<in> set (show_nat n) \<Longrightarrow> is_digit c"
proof (induction n rule: show_nat.induct)
  case (1 n)
  show ?case
  proof (cases "n < 10")
    case True
    with "1.prems" show ?thesis
      by (simp add: show_nat.simps [of n] is_digit_char_of)
  next
    case False
    with "1.prems" "1.IH" show ?thesis
      by (auto simp: show_nat.simps [of n] is_digit_char_of)
  qed
qed

lemma show_nat_nonempty: "show_nat n \<noteq> []"
  by (subst show_nat.simps) simp

lemma show_nat_hd: "n \<noteq> 0 \<Longrightarrow> hd (show_nat n) \<noteq> CHR ''0''"
proof (induction n rule: show_nat.induct)
  case (1 n)
  show ?case
  proof (cases "n < 10")
    case True
    with "1.prems" have "(of_char (char_of (48 + n) :: char) :: nat) \<noteq> of_char CHR ''0''"
      by simp
    then have "(char_of (48 + n) :: char) \<noteq> CHR ''0''"
      by (rule contrapos_nn) simp
    with True show ?thesis by (simp add: show_nat.simps [of n])
  next
    case False
    then have "n div 10 \<noteq> 0" by simp
    with False "1.IH" show ?thesis
      by (simp add: show_nat.simps [of n] show_nat_nonempty)
  qed
qed

lemma digits_val_snoc: "digits_val (ds @ [d]) = 10 * digits_val ds + (of_char d - 48)"
  by (simp add: digits_val_def)

lemma digits_val_show_nat: "digits_val (show_nat n) = n"
proof (induction n rule: show_nat.induct)
  case (1 n)
  show ?case
  proof (cases "n < 10")
    case True
    then show ?thesis by (simp add: show_nat.simps [of n] digits_val_def)
  next
    case False
    with "1.IH" show ?thesis
      by (simp add: show_nat.simps [of n] digits_val_snoc)
  qed
qed

lemma char_of_48: "char_of (48::nat) = CHR ''0''"
proof -
  have "(of_char (char_of (48::nat) :: char) :: nat) = of_char CHR ''0''" by simp
  then show ?thesis by (simp only: of_char_eq_iff)
qed

lemma tail_ok_not_digit: "tail_ok r \<Longrightarrow> r = [] \<or> \<not> is_digit (hd r)"
  by (auto simp: tail_ok_def is_digit_def split: list.splits)

lemma tail_ok_not_float: "tail_ok r \<Longrightarrow> \<not> is_float_tail r"
  by (auto simp: tail_ok_def is_float_tail_def split: list.splits)

lemma takeWhile_digits:
  assumes "tail_ok r"
  shows "takeWhile is_digit (show_nat n @ r) = show_nat n"
proof -
  have "takeWhile is_digit r = []"
    using tail_ok_not_digit [OF assms] by (cases r) auto
  then show ?thesis
    by (simp add: takeWhile_append2 show_nat_digits)
qed

lemma int_digits_show_nat:
  assumes "tail_ok r"
  shows "int_digits (show_nat n @ r) = show_nat n"
proof (cases "n = 0")
  case True
  then show ?thesis by (simp add: int_digits_def show_nat.simps [of 0] char_of_48)
next
  case False
  obtain c cs where sn: "show_nat n = c # cs"
    using show_nat_nonempty [of n] by (cases "show_nat n") auto
  with show_nat_hd [OF False] have "c \<noteq> CHR ''0''" by simp
  then have "int_digits (show_nat n @ r) = takeWhile is_digit (show_nat n @ r)"
    by (simp add: int_digits_def sn)
  then show ?thesis by (simp add: takeWhile_digits [OF assms])
qed

lemma show_nat_hd_digit: "is_digit (hd (show_nat n))"
  using show_nat_nonempty [of n] show_nat_digits [of "hd (show_nat n)" n] by simp

lemma minus_not_digit: "\<not> is_digit CHR ''-''"
  by (simp add: is_digit_def)

lemma scan_number_show_int:
  assumes "tail_ok r"
  shows "scan_number (show_int i @ r) = Inr (JInt i, r)"
proof (cases "i < 0")
  case True
  then show ?thesis
    by (simp add: scan_number_def show_int_def Let_def int_digits_show_nat [OF assms]
        show_nat_nonempty tail_ok_not_float [OF assms] digits_val_show_nat)
next
  case False
  have "hd (show_nat (nat i) @ r) \<noteq> CHR ''-''"
    using show_nat_hd_digit [of "nat i"] minus_not_digit show_nat_nonempty [of "nat i"]
    by auto
  with False show ?thesis
    by (simp add: scan_number_def show_int_def Let_def int_digits_show_nat [OF assms]
        show_nat_nonempty tail_ok_not_float [OF assms] digits_val_show_nat)
qed

subsection \<open>Layout\<close>

fun wf_json :: "json \<Rightarrow> bool"
  and wf_items :: "json list \<Rightarrow> bool"
  and wf_pairs :: "(string \<times> json) list \<Rightarrow> bool" where
  "wf_json (JArr vs) = wf_items vs"
| "wf_json (JObj kvs) = (distinct (map fst kvs) \<and> wf_pairs kvs)"
| "wf_json JNull = True"
| "wf_json (JBool b) = True"
| "wf_json (JInt i) = True"
| "wf_json (JStr s) = True"
| "wf_items [] = True"
| "wf_items (v # vs) = (wf_json v \<and> wf_items vs)"
| "wf_pairs [] = True"
| "wf_pairs ((k, v) # ps) = (wf_json v \<and> wf_pairs ps)"

definition vstart :: "string \<Rightarrow> bool" where
  "vstart s = (case s of [] \<Rightarrow> False | c # _ \<Rightarrow> \<not> is_ws c \<and> c \<noteq> CHR '']'' \<and> c \<noteq> CHR ''}'')"

lemma vstart_Cons: "vstart (c # s) \<longleftrightarrow> \<not> is_ws c \<and> c \<noteq> CHR '']'' \<and> c \<noteq> CHR ''}''"
  by (simp add: vstart_def)

lemma vstart_append: "vstart s \<Longrightarrow> vstart (s @ r)"
  by (cases s) (simp_all add: vstart_def)

lemma skip_ws_vstart: "vstart s \<Longrightarrow> skip_ws s = s"
  by (cases s) (simp_all add: vstart_def skip_ws_def)

lemma skip_ws_newline_indent: "skip_ws (newline_indent l @ s) = skip_ws s"
proof -
  have "dropWhile is_ws (replicate k CHR '' '' @ s) = dropWhile is_ws s" for k
    by (induction k) (simp_all add: is_ws_def)
  then show ?thesis
    by (simp add: skip_ws_def newline_indent_def is_ws_def)
qed

lemma skip_ws_stop:
  "skip_ws (CHR '']'' # s) = CHR '']'' # s"
  "skip_ws (CHR ''}'' # s) = CHR ''}'' # s"
  "skip_ws (CHR '','' # s) = CHR '','' # s"
  "skip_ws (CHR '':'' # s) = CHR '':'' # s"
  by (simp_all add: skip_ws_def is_ws_def)

lemma skip_ws_space: "skip_ws (CHR '' '' # s) = skip_ws s"
  by (simp add: skip_ws_def is_ws_def)

lemma digit_facts:
  assumes "is_digit c \<or> c = CHR ''-''"
  shows "\<not> is_ws c" "c \<noteq> CHR '']''" "c \<noteq> CHR ''}''" "c \<noteq> CHR 0x22" "c \<noteq> CHR ''{''"
    "c \<noteq> CHR ''[''" "c \<noteq> CHR ''n''" "c \<noteq> CHR ''t''" "c \<noteq> CHR ''f''"
  using assms by (auto simp: is_digit_def is_ws_def)

lemma show_int_start:
  "\<exists>c cs. show_int i = c # cs \<and> (is_digit c \<or> c = CHR ''-'')"
proof (cases "i < 0")
  case True
  then show ?thesis by (simp add: show_int_def)
next
  case False
  obtain c cs where "show_nat (nat i) = c # cs"
    using show_nat_nonempty [of "nat i"] by (cases "show_nat (nat i)") auto
  with show_nat_hd_digit [of "nat i"] False show ?thesis
    by (simp add: show_int_def)
qed

lemma vstart_dumps_at: "vstart (dumps_at lvl v)"
proof (cases v)
  case (JInt i)
  from show_int_start [of i] obtain c cs where
    "show_int i = c # cs" "is_digit c \<or> c = CHR ''-''" by blast
  with JInt digit_facts(1-3) [of c] show ?thesis by (simp add: vstart_Cons)
qed (simp_all add: vstart_Cons is_ws_def encode_string_def)

lemma dumps_at_nonempty: "dumps_at lvl v \<noteq> []"
  using vstart_dumps_at [of lvl v] by (auto simp: vstart_def)

lemma vstart_items: "vs \<noteq> [] \<Longrightarrow> vstart (dumps_items lvl vs @ r)"
proof (cases vs)
  case Nil
  assume "vs \<noteq> []"
  with Nil show ?thesis by simp
next
  case (Cons v ws)
  then show ?thesis
    by (cases ws) (simp_all add: vstart_append vstart_dumps_at)
qed

subsection \<open>One step of the scanner\<close>

lemma parse_value_null: "parse_value (Suc n) (''null'' @ r) = Inr (JNull, r)"
  by simp

lemma parse_value_true: "parse_value (Suc n) (''true'' @ r) = Inr (JBool True, r)"
  by simp

lemma parse_value_false: "parse_value (Suc n) (''false'' @ r) = Inr (JBool False, r)"
  by simp

lemma parse_value_str: "parse_value (Suc n) (encode_string s @ r) = Inr (JStr s, r)"
  by (simp add: scanstring_encode scanstring_concat)

lemma parse_value_int:
  assumes "tail_ok r"
  shows "parse_value (Suc n) (show_int i @ r) = Inr (JInt i, r)"
proof -
  from show_int_start [of i] obtain c cs where
    sc: "show_int i = c # cs" and c: "is_digit c \<or> c = CHR ''-''" by blast
  have "parse_value (Suc n) (c # cs @ r) = scan_number (c # cs @ r)"
    using digit_facts(4-9) [OF c] by simp
  then show ?thesis
    using scan_number_show_int [OF assms, of i] sc by simp
qed

lemma parse_value_arr_empty: "parse_value (Suc n) (''[]'' @ r) = Inr (JArr [], r)"
  by (simp add: skip_ws_stop)

lemma parse_value_obj_empty: "parse_value (Suc n) (''{}'' @ r) = Inr (JObj [], r)"
  by (simp add: skip_ws_stop)

lemma parse_value_arr:
  assumes "vstart X"
  shows "parse_value (Suc n) (CHR ''['' # newline_indent l @ X) =
           (case parse_items n X of Inl e \<Rightarrow> Inl e | Inr (vs, r2) \<Rightarrow> Inr (JArr vs, r2))"
proof -
  from assms obtain d r1 where X: "X = d # r1" and d: "d \<noteq> CHR '']''"
    by (cases X) (auto simp: vstart_def)
  have "skip_ws (newline_indent l @ X) = d # r1"
    using skip_ws_vstart [OF assms] X by (simp add: skip_ws_newline_indent)
  then show ?thesis using d X by simp
qed

lemma parse_value_obj:
  assumes "vstart X"
  shows "parse_value (Suc n) (CHR ''{'' # newline_indent l @ X) =
           (case parse_pairs n X of Inl e \<Rightarrow> Inl e | Inr (ps, r2) \<Rightarrow> Inr (JObj (dict_of ps), r2))"
proof -
  from assms obtain d r1 where X: "X = d # r1" and d: "d \<noteq> CHR ''}''"
    by (cases X) (auto simp: vstart_def)
  have "skip_ws (newline_indent l @ X) = d # r1"
    using skip_ws_vstart [OF assms] X by (simp add: skip_ws_newline_indent)
  then show ?thesis using d X by simp
qed

lemma parse_items_last:
  assumes "parse_value n s = Inr (v, newline_indent l @ CHR '']'' # rest)"
  shows "parse_items (Suc n) s = Inr ([v], rest)"
  using assms by (simp add: skip_ws_newline_indent skip_ws_stop)

lemma parse_items_more:
  assumes "parse_value n s = Inr (v, CHR '','' # newline_indent l @ X)" and "vstart X"
  shows "parse_items (Suc n) s =
           (case parse_items n X of Inl e \<Rightarrow> Inl e | Inr (vs, r2) \<Rightarrow> Inr (v # vs, r2))"
  using assms by (simp add: skip_ws_newline_indent skip_ws_stop skip_ws_vstart)

lemma parse_pairs_last:
  assumes "parse_value n Y = Inr (v, newline_indent l @ CHR ''}'' # rest)" and "vstart Y"
  shows "parse_pairs (Suc n) (encode_string k @ '': '' @ Y) = Inr ([(k, v)], rest)"
  using assms
  by (simp add: scanstring_encode scanstring_concat skip_ws_newline_indent skip_ws_stop
      skip_ws_space skip_ws_vstart)

lemma parse_pairs_more:
  assumes "parse_value n Y = Inr (v, CHR '','' # newline_indent l @ X)" and "vstart Y"
    and "vstart X"
  shows "parse_pairs (Suc n) (encode_string k @ '': '' @ Y) =
           (case parse_pairs n X of Inl e \<Rightarrow> Inl e | Inr (ps, r2) \<Rightarrow> Inr ((k, v) # ps, r2))"
  using assms
  by (simp add: scanstring_encode scanstring_concat skip_ws_newline_indent skip_ws_stop
      skip_ws_space skip_ws_vstart)

lemma vstart_encode_string: "vstart (encode_string k @ r)"
  by (simp add: encode_string_def vstart_Cons is_ws_def)

lemma vstart_pairs: "kvs \<noteq> [] \<Longrightarrow> vstart (dumps_pairs lvl kvs @ r)"
proof (cases kvs)
  case Nil
  assume "kvs \<noteq> []"
  with Nil show ?thesis by simp
next
  case (Cons p ps)
  obtain k v where "p = (k, v)" by (cases p)
  with Cons show ?thesis
    using vstart_encode_string by (cases ps) simp_all
qed

lemma update_fresh: "k \<notin> set (map fst al) \<Longrightarrow> AList.update k v al = al @ [(k, v)]"
  by (induction al) auto

lemma dict_of_fold:
  "distinct (map fst (acc @ ps)) \<Longrightarrow>
     foldl (\<lambda>d (k, v). AList.update k v d) acc ps = acc @ ps"
proof (induction ps arbitrary: acc)
  case Nil
  then show ?case by simp
next
  case (Cons p ps)
  obtain k v where p: "p = (k, v)" by (cases p)
  from Cons.prems p have "k \<notin> set (map fst acc)" by auto
  then have u: "AList.update k v acc = acc @ [(k, v)]" by (rule update_fresh)
  from Cons.prems p have "distinct (map fst ((acc @ [(k, v)]) @ ps))" by simp
  from Cons.IH [OF this] u p show ?case by simp
qed

lemma dict_of_distinct: "distinct (map fst ps) \<Longrightarrow> dict_of ps = ps"
  using dict_of_fold [of "[]" ps] by (simp add: dict_of_def)

lemma tail_ok_simps: "tail_ok []" "tail_ok (CHR '','' # s)" "tail_ok (newline_indent l @ s)"
  by (simp_all add: tail_ok_def newline_indent_def)

lemma length_newline_indent: "length (newline_indent l) = Suc (2 * l)"
  by (simp add: newline_indent_def)

lemma length_dumps_at: "0 < length (dumps_at lvl v)"
  using dumps_at_nonempty [of lvl v] by simp

subsection \<open>Reading back what was written\<close>

lemma roundtrip_aux:
  "wf_json v \<Longrightarrow> tail_ok r \<Longrightarrow> length (dumps_at lvl v) < n \<Longrightarrow>
     parse_value n (dumps_at lvl v @ r) = Inr (v, r)"
  "vs \<noteq> [] \<Longrightarrow> wf_items vs \<Longrightarrow> length (dumps_items lvl vs) + 2 \<le> n \<Longrightarrow>
     parse_items n (dumps_items lvl vs @ newline_indent l @ CHR '']'' # r) = Inr (vs, r)"
  "kvs \<noteq> [] \<Longrightarrow> wf_pairs kvs \<Longrightarrow> length (dumps_pairs lvl kvs) + 2 \<le> n \<Longrightarrow>
     parse_pairs n (dumps_pairs lvl kvs @ newline_indent l @ CHR ''}'' # r) = Inr (kvs, r)"
proof (induction lvl v and lvl vs and lvl kvs arbitrary: n r and n r l and n r l
    rule: dumps_at_dumps_items_dumps_pairs.induct)
  case (1 lvl)
  then obtain m where "n = Suc m" by (cases n) auto
  then show ?case using parse_value_null [of m r] by simp
next
  case (2 lvl b)
  then obtain m where "n = Suc m" by (cases n) auto
  then show ?case
    using parse_value_true [of m r] parse_value_false [of m r] by (cases b) simp_all
next
  case (3 lvl i)
  then obtain m where "n = Suc m" by (cases n) auto
  then show ?case using parse_value_int [OF "3.prems"(2), of m i] by simp
next
  case (4 lvl s)
  then obtain m where "n = Suc m" by (cases n) auto
  then show ?case using parse_value_str [of m s r] by simp
next
  case (5 lvl vs)
  from "5.prems"(3) obtain m where n: "n = Suc m" by (cases n) auto
  show ?case
  proof (cases "vs = []")
    case True
    then show ?thesis using parse_value_arr_empty [of m r] n by simp
  next
    case False
    let ?X = "dumps_items (Suc lvl) vs @ newline_indent lvl @ CHR '']'' # r"
    have fuel: "length (dumps_items (Suc lvl) vs) + 2 \<le> m"
      using "5.prems"(3) False n by (simp add: length_newline_indent)
    have wf: "wf_items vs" using "5.prems"(1) by simp
    have "parse_items m ?X = Inr (vs, r)"
      by (rule "5.IH" [OF False False wf fuel])
    moreover have "vstart ?X" by (rule vstart_items [OF False])
    ultimately have "parse_value (Suc m) (CHR ''['' # newline_indent (Suc lvl) @ ?X) = Inr (JArr vs, r)"
      by (simp add: parse_value_arr del: parse_value.simps)
    then show ?thesis using False n by simp
  qed
next
  case (6 lvl kvs)
  from "6.prems"(3) obtain m where n: "n = Suc m" by (cases n) auto
  show ?case
  proof (cases "kvs = []")
    case True
    then show ?thesis using parse_value_obj_empty [of m r] n by simp
  next
    case False
    let ?X = "dumps_pairs (Suc lvl) kvs @ newline_indent lvl @ CHR ''}'' # r"
    have fuel: "length (dumps_pairs (Suc lvl) kvs) + 2 \<le> m"
      using "6.prems"(3) False n by (simp add: length_newline_indent)
    have wf: "wf_pairs kvs" and di: "distinct (map fst kvs)" using "6.prems"(1) by simp_all
    have "parse_pairs m ?X = Inr (kvs, r)"
      by (rule "6.IH" [OF False False wf fuel])
    moreover have "vstart ?X" by (rule vstart_pairs [OF False])
    ultimately have "parse_value (Suc m) (CHR ''{'' # newline_indent (Suc lvl) @ ?X) = Inr (JObj kvs, r)"
      by (simp add: parse_value_obj dict_of_distinct [OF di] del: parse_value.simps)
    then show ?thesis using False n by simp
  qed
next
  case (7 lvl)
  then show ?case by simp
next
  case (8 lvl v)
  from "8.prems"(3) obtain m where n: "n = Suc m" by (cases n) auto
  have "parse_value m (dumps_at lvl v @ newline_indent l @ CHR '']'' # r)
          = Inr (v, newline_indent l @ CHR '']'' # r)"
    using "8.prems" n by (intro "8.IH") (simp_all add: tail_ok_simps)
  from parse_items_last [OF this] n show ?case by simp
next
  case (9 lvl v w vs)
  from "9.prems"(3) obtain m where n: "n = Suc m" by (cases n) auto
  let ?X = "dumps_items lvl (w # vs) @ newline_indent l @ CHR '']'' # r"
  have pv: "parse_value m (dumps_at lvl v @ CHR '','' # newline_indent lvl @ ?X)
          = Inr (v, CHR '','' # newline_indent lvl @ ?X)"
    using "9.prems" n by (intro "9.IH"(1)) (simp_all add: tail_ok_simps)
  have vs: "vstart ?X" by (rule vstart_items) simp
  have "parse_items m ?X = Inr (w # vs, r)"
    using "9.prems" n length_dumps_at [of lvl v]
    by (intro "9.IH"(2)) (simp_all add: length_newline_indent)
  with parse_items_more [OF pv vs] n show ?case by simp
next
  case (10 lvl)
  then show ?case by simp
next
  case (11 lvl k v)
  from "11.prems"(3) obtain m where n: "n = Suc m" by (cases n) auto
  have "parse_value m (dumps_at lvl v @ newline_indent l @ CHR ''}'' # r)
          = Inr (v, newline_indent l @ CHR ''}'' # r)"
    using "11.prems" n by (intro "11.IH") (simp_all add: tail_ok_simps)
  from parse_pairs_last [OF this vstart_append [OF vstart_dumps_at], of k] n
  show ?case by simp
next
  case (12 lvl k v p ps)
  from "12.prems"(3) obtain m where n: "n = Suc m" by (cases n) auto
  let ?X = "dumps_pairs lvl (p # ps) @ newline_indent l @ CHR ''}'' # r"
  have pv: "parse_value m (dumps_at lvl v @ CHR '','' # newline_indent lvl @ ?X)
          = Inr (v, CHR '','' # newline_indent lvl @ ?X)"
    using "12.prems" n by (intro "12.IH"(1)) (simp_all add: tail_ok_simps)
  have vs: "vstart ?X" by (rule vstart_pairs) simp
  have "parse_pairs m ?X = Inr (p # ps, r)"
    using "12.prems" n length_dumps_at [of lvl v]
    by (intro "12.IH"(2)) (simp_all add: length_newline_indent)
  with parse_pairs_more [OF pv vstart_append [OF vstart_dumps_at] vs, of k] n
  show ?case by simp
qed

lemma loads_dumps:
  assumes "wf_json v"
  shows "loads (dumps v) = Inr v"
proof -
  have "parse_value (Suc (length (dumps_at 0 v))) (dumps_at 0 v @ []) = Inr (v, [])"
    using assms by (intro roundtrip_aux(1)) (simp_all add: tail_ok_simps)
  moreover have "skip_ws (dumps_at 0 v) = dumps_at 0 v"
    by (rule skip_ws_vstart [OF vstart_dumps_at])
  moreover have "skip_ws [] = []" by (simp add: skip_ws_def)
  ultimately show ?thesis
    by (simp add: loads_def dumps_def del: parse_value.simps)
qed

subsection \<open>What the scanner returns is well formed\<close>

lemma wf_pairs_update: "wf_json v \<Longrightarrow> wf_pairs al \<Longrightarrow> wf_pairs (AList.update k v al)"
  by (induction al) auto

lemma wf_pairs_all: "wf_pairs ps \<longleftrightarrow> (\<forall>p \<in> set ps. wf_json (snd p))"
  by (induction ps) auto

lemma dict_of_fold_wf:
  "distinct (map fst acc) \<Longrightarrow> wf_pairs acc \<Longrightarrow> wf_pairs ps \<Longrightarrow>
     distinct (map fst (foldl (\<lambda>d (k, v). AList.update k v d) acc ps))
     \<and> wf_pairs (foldl (\<lambda>d (k, v). AList.update k v d) acc ps)"
proof (induction ps arbitrary: acc)
  case Nil
  then show ?case by simp
next
  case (Cons p ps)
  obtain k v where p: "p = (k, v)" by (cases p)
  from Cons.prems p have "distinct (map fst (AList.update k v acc))"
    and "wf_pairs (AList.update k v acc)" and "wf_pairs ps"
    by (simp_all add: distinct_update wf_pairs_update)
  from Cons.IH [OF this] p show ?case by simp
qed

lemma wf_dict_of: "wf_pairs ps \<Longrightarrow> wf_json (JObj (dict_of ps))"
  using dict_of_fold_wf [of "[]" ps] by (simp add: dict_of_def)

lemma scan_number_wf: "scan_number s = Inr (v, r) \<Longrightarrow> wf_json v"
  by (auto simp: scan_number_def Let_def split: if_splits)

lemma parse_wf_all:
  "(\<forall>s v r. parse_value n s = Inr (v, r) \<longrightarrow> wf_json v)
   \<and> (\<forall>s vs r. parse_items n s = Inr (vs, r) \<longrightarrow> wf_items vs)
   \<and> (\<forall>s ps r. parse_pairs n s = Inr (ps, r) \<longrightarrow> wf_pairs ps)"
proof (induction n)
  case 0
  show ?case by simp
next
  case (Suc n)
  then have iv: "\<And>s v r. parse_value n s = Inr (v, r) \<Longrightarrow> wf_json v"
    and ii: "\<And>s vs r. parse_items n s = Inr (vs, r) \<Longrightarrow> wf_items vs"
    and ip: "\<And>s ps r. parse_pairs n s = Inr (ps, r) \<Longrightarrow> wf_pairs ps"
    by blast+
  have v: "wf_json v" if "parse_value (Suc n) s = Inr (v, r)" for s v r
    using that
    by (auto split: list.splits if_splits sum.splits prod.splits
        dest: scan_number_wf ii intro: wf_dict_of ip)
  have i: "wf_items vs" if "parse_items (Suc n) s = Inr (vs, r)" for s vs r
    using that
    by (auto split: list.splits if_splits sum.splits prod.splits dest: iv ii)
  have p: "wf_pairs ps" if "parse_pairs (Suc n) s = Inr (ps, r)" for s ps r
    using that
    by (auto split: list.splits if_splits sum.splits prod.splits dest: iv ip)
  from v i p show ?case by blast
qed

lemma parse_wf: "parse_value n s = Inr (v, r) \<Longrightarrow> wf_json v"
  using parse_wf_all [of n] by blast

lemma loads_wf: "loads s = Inr v \<Longrightarrow> wf_json v"
  by (auto simp: loads_def split: sum.splits prod.splits if_splits dest: parse_wf
      simp del: parse_value.simps)

section \<open>Reading the log\<close>

text \<open>The processes a run started, with their input and result, and the texts it wrote to the state file.\<close>

fun execs :: "event list \<Rightarrow> (string list \<times> string option \<times> proc) list" where
  "execs [] = []"
| "execs (Exec cmd inp r # evs) = (cmd, inp, r) # execs evs"
| "execs (ev # evs) = execs evs"

definition launched :: "event list \<Rightarrow> string list list" where
  "launched evs = map fst (execs evs)"

fun writes :: "event list \<Rightarrow> string list" where
  "writes [] = []"
| "writes (Write_state t # evs) = t # writes evs"
| "writes (ev # evs) = writes evs"

lemma execs_append [simp]: "execs (xs @ ys) = execs xs @ execs ys"
  by (induction xs rule: execs.induct) simp_all

lemma writes_append [simp]: "writes (xs @ ys) = writes xs @ writes ys"
  by (induction xs rule: writes.induct) simp_all

lemma launched_append [simp]: "launched (xs @ ys) = launched xs @ launched ys"
  by (simp add: launched_def)

section \<open>The verification loop\<close>

lemma run_cmd_Exited:
  assumes "env (calls w) cmd None = Exited rc out err"
  shows "run_cmd env cmd w =
           (Inr (rc, out @ err),
            emit (Print_output (out @ err))
              (emit (Exec cmd None (Exited rc out err))
                 ((emit (Print_cmd cmd) w)\<lparr>calls := Suc (calls w)\<rparr>)))"
  using assms by (simp add: run_cmd_def subprocess_run_def Let_def)

lemma verify_loop_all_pass:
  assumes "\<And>i. i < length cmds \<Longrightarrow> \<exists>out err. env (calls w + i) (cmds ! i) None = Exited 0 out err"
  shows "\<exists>w'. verify_loop env cmds w = (Inr True, w') \<and> calls w' = calls w + length cmds
           \<and> launched (log w') = launched (log w) @ cmds"
  using assms
proof (induction cmds arbitrary: w)
  case Nil
  then show ?case by simp
next
  case (Cons cmd cmds)
  from Cons.prems [of 0] obtain out err where e: "env (calls w) cmd None = Exited 0 out err"
    by auto
  let ?w1 = "emit (Print_output (out @ err))
              (emit (Exec cmd None (Exited 0 out err))
                 ((emit (Print_cmd cmd) w)\<lparr>calls := Suc (calls w)\<rparr>))"
  have c1: "calls ?w1 = Suc (calls w)" by simp
  have l1: "launched (log ?w1) = launched (log w) @ [cmd]" by (simp add: launched_def)
  have "\<And>i. i < length cmds \<Longrightarrow> \<exists>out err. env (calls ?w1 + i) (cmds ! i) None = Exited 0 out err"
    using Cons.prems [of "Suc _"] c1 by simp
  from Cons.IH [OF this] obtain w' where
    "verify_loop env cmds ?w1 = (Inr True, w')" "calls w' = calls ?w1 + length cmds"
    "launched (log w') = launched (log ?w1) @ cmds"
    by blast
  then show ?case using run_cmd_Exited [of env w cmd 0 _ _, OF e] c1 l1 by simp
qed

text \<open>
  Claim C3. The verification loop runs the steps in order and stops at the first one
  that exits non-zero: when the steps \<open>pre\<close> all exit with 0 and the step \<open>c\<close> after
  them does not, the loop reports failure (its last print is the verification-failed
  message), the processes it started are exactly \<open>pre\<close> and then \<open>c\<close>, and no step of
  \<open>post\<close> was started.
\<close>

theorem verify_loop_short_circuit:
  assumes ok: "\<And>i. i < length pre \<Longrightarrow> \<exists>out err. env (calls w + i) (pre ! i) None = Exited 0 out err"
    and bad: "env (calls w + length pre) c None = Exited rc out err" and rc: "rc \<noteq> 0"
  shows "\<exists>w'. verify_loop env (pre @ c # post) w = (Inr False, w')
           \<and> launched (log w') = launched (log w) @ pre @ [c]
           \<and> calls w' = calls w + length pre + 1
           \<and> last (log w') = Print_verify_failed"
  using ok bad
proof (induction pre arbitrary: w)
  case Nil
  then show ?case using rc run_cmd_Exited [of env w c rc out err]
    by (simp add: launched_def)
next
  case (Cons cmd pre)
  from Cons.prems(1) [of 0] obtain o1 e1 where e: "env (calls w) cmd None = Exited 0 o1 e1"
    by auto
  let ?w1 = "emit (Print_output (o1 @ e1))
              (emit (Exec cmd None (Exited 0 o1 e1))
                 ((emit (Print_cmd cmd) w)\<lparr>calls := Suc (calls w)\<rparr>))"
  have c1: "calls ?w1 = Suc (calls w)" by simp
  have l1: "launched (log ?w1) = launched (log w) @ [cmd]" by (simp add: launched_def)
  have a: "\<And>i. i < length pre \<Longrightarrow> \<exists>out err. env (calls ?w1 + i) (pre ! i) None = Exited 0 out err"
    using Cons.prems(1) [of "Suc _"] c1 by simp
  have b: "env (calls ?w1 + length pre) c None = Exited rc out err"
    using Cons.prems(2) c1 by simp
  from Cons.IH [OF a b] obtain w' where
    "verify_loop env (pre @ c # post) ?w1 = (Inr False, w')"
    "launched (log w') = launched (log ?w1) @ pre @ [c]"
    "calls w' = calls ?w1 + length pre + 1" "last (log w') = Print_verify_failed"
    by blast
  then show ?case using run_cmd_Exited [of env w cmd 0 _ _, OF e] c1 l1 by simp
qed

definition env_B_fails :: env where
  "env_B_fails i cmd inp = (if cmd = [''B''] then Exited 2 ''boom'' [] else Exited 0 [] [])"

definition example_sys :: sys where
  "example_sys =
     \<lparr>specs_dir = Some [(''02-b.md'', Some ''second''), (''notes.txt'', Some ''n''),
                        (''01-a.md'', Some ''first'')],
      state_file = None, calls = 0, log = []\<rparr>"

definition empty_sys :: sys where
  "empty_sys = \<lparr>specs_dir = Some [(''notes.txt'', Some ''n'')], state_file = None, calls = 0, log = []\<rparr>"

definition absent_sys :: sys where
  "absent_sys = \<lparr>specs_dir = None, state_file = Some ''{}'', calls = 0, log = []\<rparr>"

theorem verify_loop_short_circuit_witness:
  "\<exists>w'. verify_loop env_B_fails [[''A''], [''B''], [''C'']] example_sys = (Inr False, w')
      \<and> launched (log w') = [[''A''], [''B'']]
      \<and> calls w' = 2
      \<and> last (log w') = Print_verify_failed"
proof -
  have ok: "\<And>i. i < length [[''A'']] \<Longrightarrow>
      \<exists>out err. env_B_fails (calls example_sys + i) ([[''A'']] ! i) None = Exited 0 out err"
    by (simp add: env_B_fails_def)
  have bad: "env_B_fails (calls example_sys + length [[''A'']]) [''B''] None = Exited 2 ''boom'' []"
    by (simp add: env_B_fails_def)
  have l: "launched (log example_sys) = []" "calls example_sys = 0"
    by (simp_all add: example_sys_def launched_def)
  from verify_loop_short_circuit [where pre = "[[''A'']]" and env = env_B_fails
      and w = example_sys and c = "[''B'']" and rc = 2 and out = "''boom''" and err = "[]"
      and post = "[[''C'']]", OF ok bad] l
  show ?thesis by (simp del: verify_loop.simps add: numeral_2_eq_2)
qed

section \<open>The work queue\<close>

lemma find_Some_split:
  "find P xs = Some x \<longleftrightarrow> (\<exists>pre post. xs = pre @ x # post \<and> (\<forall>y\<in>set pre. \<not> P y) \<and> P x)"
proof (induction xs)
  case Nil
  then show ?case by simp
next
  case (Cons a xs)
  show ?case
  proof (cases "P a")
    case True
    have "(\<exists>pre post. a # xs = pre @ x # post \<and> (\<forall>y\<in>set pre. \<not> P y) \<and> P x) \<longleftrightarrow> a = x"
    proof
      assume "\<exists>pre post. a # xs = pre @ x # post \<and> (\<forall>y\<in>set pre. \<not> P y) \<and> P x"
      then obtain pre post where h: "a # xs = pre @ x # post" "\<forall>y\<in>set pre. \<not> P y" by blast
      show "a = x"
      proof (cases pre)
        case Nil
        with h show ?thesis by simp
      next
        case (Cons b pre')
        with h True show ?thesis by simp
      qed
    next
      assume "a = x"
      with True have "a # xs = [] @ x # xs \<and> (\<forall>y\<in>set []. \<not> P y) \<and> P x" by simp
      then show "\<exists>pre post. a # xs = pre @ x # post \<and> (\<forall>y\<in>set pre. \<not> P y) \<and> P x" by blast
    qed
    with True show ?thesis by simp
  next
    case False
    have "(\<exists>pre post. a # xs = pre @ x # post \<and> (\<forall>y\<in>set pre. \<not> P y) \<and> P x)
          \<longleftrightarrow> (\<exists>pre post. xs = pre @ x # post \<and> (\<forall>y\<in>set pre. \<not> P y) \<and> P x)"
    proof
      assume "\<exists>pre post. a # xs = pre @ x # post \<and> (\<forall>y\<in>set pre. \<not> P y) \<and> P x"
      then obtain pre post where h: "a # xs = pre @ x # post" "\<forall>y\<in>set pre. \<not> P y" "P x"
        by blast
      show "\<exists>pre post. xs = pre @ x # post \<and> (\<forall>y\<in>set pre. \<not> P y) \<and> P x"
      proof (cases pre)
        case Nil
        with h False show ?thesis by simp
      next
        case (Cons b pre')
        with h have "xs = pre' @ x # post \<and> (\<forall>y\<in>set pre'. \<not> P y) \<and> P x" by simp
        then show ?thesis by blast
      qed
    next
      assume "\<exists>pre post. xs = pre @ x # post \<and> (\<forall>y\<in>set pre. \<not> P y) \<and> P x"
      then obtain pre post where h: "xs = pre @ x # post" "\<forall>y\<in>set pre. \<not> P y" "P x"
        by blast
      with False have "a # xs = (a # pre) @ x # post \<and> (\<forall>y\<in>set (a # pre). \<not> P y) \<and> P x"
        by simp
      then show "\<exists>pre post. a # xs = pre @ x # post \<and> (\<forall>y\<in>set pre. \<not> P y) \<and> P x"
        by blast
    qed
    with False Cons.IH show ?thesis by simp
  qed
qed

lemma sorted_specs_props:
  "sorted (sorted_specs w)" "set (sorted_specs w) = set (glob_md w)"
  "mset (sorted_specs w) = mset (glob_md w)"
  by (simp_all add: sorted_specs_def)

text \<open>
  Claim C2. \<^verbatim>\<open>get_next_spec\<close> goes through the \<^verbatim>\<open>*.md\<close> names of the specs directory
  in ascending order and returns the first that is not in the done list; it returns
  \<open>None\<close> exactly when every name is in the done list; and when there is no spec at all
  it returns \<open>None\<close> without raising, whatever \<open>done\<close> is.
\<close>

theorem get_next_spec_first_pending:
  "sorted (sorted_specs w) \<and> mset (sorted_specs w) = mset (glob_md w)
   \<and> get_next_spec (JArr vs) w = Inr (find (\<lambda>n. JStr n \<notin> set vs) (sorted_specs w))
   \<and> (get_next_spec (JArr vs) w = Inr None \<longleftrightarrow> (\<forall>n \<in> set (glob_md w). JStr n \<in> set vs))
   \<and> (get_next_spec (JArr vs) w = Inr (Some name) \<longleftrightarrow>
        (\<exists>pre post. sorted_specs w = pre @ name # post
           \<and> (\<forall>n \<in> set pre. JStr n \<in> set vs) \<and> JStr name \<notin> set vs))
   \<and> (glob_md w = [] \<longrightarrow> get_next_spec done w = Inr None)"
proof -
  have a: "get_next_spec (JArr vs) w = Inr (find (\<lambda>n. JStr n \<notin> set vs) (sorted_specs w))"
    by (simp add: get_next_spec_def first_not_in_list)
  have b: "get_next_spec (JArr vs) w = Inr None \<longleftrightarrow> (\<forall>n \<in> set (glob_md w). JStr n \<in> set vs)"
    unfolding a by (auto simp: find_None_iff sorted_specs_props)
  have c: "get_next_spec (JArr vs) w = Inr (Some name) \<longleftrightarrow>
        (\<exists>pre post. sorted_specs w = pre @ name # post
           \<and> (\<forall>n \<in> set pre. JStr n \<in> set vs) \<and> JStr name \<notin> set vs)"
    unfolding a by (simp add: find_Some_split)
  have d: "glob_md w = [] \<longrightarrow> get_next_spec done w = Inr None"
    by (simp add: get_next_spec_def sorted_specs_def)
  from a b c d show ?thesis by (simp only: sorted_specs_props simp_thms)
qed

theorem get_next_spec_first_pending_witness:
  "get_next_spec (JArr [JStr ''01-a.md'']) example_sys = Inr (Some ''02-b.md'')
   \<and> get_next_spec (JArr [JStr ''02-b.md'', JStr ''01-a.md'']) example_sys = Inr None
   \<and> glob_md empty_sys = [] \<and> get_next_spec JNull empty_sys = Inr None"
proof -
  have s: "sorted_specs example_sys = [''01-a.md'', ''02-b.md'']"
    by code_simp
  have g: "glob_md empty_sys = []" by code_simp
  note t1 = get_next_spec_first_pending [of example_sys "[JStr ''01-a.md'']" "''02-b.md''" JNull]
  note t2 = get_next_spec_first_pending [of example_sys "[JStr ''02-b.md'', JStr ''01-a.md'']" "''02-b.md''" JNull]
  note t3 = get_next_spec_first_pending [of empty_sys "[]" "''02-b.md''" JNull]
  have "get_next_spec (JArr [JStr ''01-a.md'']) example_sys = Inr (Some ''02-b.md'')"
    using t1 s by simp
  moreover have "get_next_spec (JArr [JStr ''02-b.md'', JStr ''01-a.md'']) example_sys = Inr None"
    using t2 s by simp
  moreover have "get_next_spec JNull empty_sys = Inr None"
    using t3 g by simp
  ultimately show ?thesis using g by simp
qed

text \<open>
  Claim C8. The result of \<^verbatim>\<open>get_next_spec\<close> is a function of the directory listing
  and the completed set alone: two machines whose specs directories hold the same
  names (listed in any order) and two done lists with the same members give the same
  answer, whatever else differs (state file, log, earlier calls). The function reads
  its inputs and returns a value; it has no machine or done list to hand back, so a
  repeated call sees the same inputs and returns the same unit.
\<close>

theorem get_next_spec_deterministic:
  assumes "mset (glob_md w1) = mset (glob_md w2)" and "set vs1 = set vs2"
  shows "get_next_spec done w1 = get_next_spec done w2
         \<and> get_next_spec (JArr vs1) w1 = get_next_spec (JArr vs2) w2"
proof -
  have "sorted_specs w1 = sorted_specs w2"
    unfolding sorted_specs_def using assms(1)
    by (intro properties_for_sort) simp_all
  then show ?thesis
    using assms(2) by (simp add: get_next_spec_def first_not_in_list)
qed

definition example_sys2 :: sys where
  "example_sys2 =
     \<lparr>specs_dir = Some [(''01-a.md'', Some ''first''), (''02-b.md'', Some ''second'')],
      state_file = Some ''{}'', calls = 7, log = [Sleep]\<rparr>"

theorem get_next_spec_deterministic_witness:
  "mset (glob_md example_sys) = mset (glob_md example_sys2)
   \<and> set [JStr ''01-a.md'', JNull] = set [JNull, JStr ''01-a.md'', JNull]
   \<and> get_next_spec (JArr [JStr ''01-a.md'', JNull]) example_sys
       = get_next_spec (JArr [JNull, JStr ''01-a.md'', JNull]) example_sys2
   \<and> get_next_spec (JArr [JNull, JStr ''01-a.md'', JNull]) example_sys2 = Inr (Some ''02-b.md'')"
proof -
  have g1: "glob_md example_sys = [''02-b.md'', ''01-a.md'']" by code_simp
  have g2: "glob_md example_sys2 = [''01-a.md'', ''02-b.md'']" by code_simp
  have m: "mset (glob_md example_sys) = mset (glob_md example_sys2)"
    unfolding g1 g2 by simp
  have s: "set [JStr ''01-a.md'', JNull] = set [JNull, JStr ''01-a.md'', JNull]" by auto
  have r: "get_next_spec (JArr [JNull, JStr ''01-a.md'', JNull]) example_sys2 = Inr (Some ''02-b.md'')"
    by code_simp
  from get_next_spec_deterministic [OF m s, of JNull] m s r show ?thesis by simp
qed

section \<open>The agent\<close>

text \<open>
  Claim C7. \<^verbatim>\<open>run_claude\<close> starts one process; its argument list is the fixed
  \<open>claude_cmd\<close>, six short words that do not depend on the prompt, and its standard
  input is the whole prompt, whatever its length. The prompt \<^verbatim>\<open>main\<close> builds is the
  rules followed by the full text of the spec.
\<close>

theorem run_claude_prompt_on_stdin:
  "execs (log (snd (run_claude env prompt w)))
     = execs (log w) @ [(claude_cmd, Some prompt, env (calls w) claude_cmd (Some prompt))]
   \<and> claude_cmd = [''claude'', ''-p'', ''--permission-mode'', ''acceptEdits'', ''--add-dir'', ''.'']
   \<and> make_prompt spec_text = prompt_rules @ spec_text @ nl"
  by (cases "env (calls w) claude_cmd (Some prompt)")
     (simp_all add: run_claude_def subprocess_run_def Let_def claude_cmd_def make_prompt_def)

section \<open>The run\<close>

text \<open>
  Claim C9. When the specs directory does not exist, \<^verbatim>\<open>main\<close> prints the not-found
  message and exits with status 1: the loop is never entered, no process is started,
  nothing is written to the state file and the file is as it was.
\<close>

theorem main_specs_dir_absent:
  assumes "specs_dir w = None"
  shows "main env w = (Sys_exit 1, emit Print_not_found w)
         \<and> exit_status (fst (main env w)) \<noteq> 0
         \<and> log (snd (main env w)) = log w @ [Print_not_found]
         \<and> execs (log (snd (main env w))) = execs (log w)
         \<and> writes (log (snd (main env w))) = writes (log w)
         \<and> calls (snd (main env w)) = calls w
         \<and> state_file (snd (main env w)) = state_file w"
  using assms by (simp add: main_def)

theorem main_specs_dir_absent_witness:
  "specs_dir absent_sys = None
   \<and> main (\<lambda>i cmd inp. Exited 0 [] []) absent_sys = (Sys_exit 1, emit Print_not_found absent_sys)
   \<and> log (snd (main (\<lambda>i cmd inp. Exited 0 [] []) absent_sys)) = [Print_not_found]
   \<and> state_file (snd (main (\<lambda>i cmd inp. Exited 0 [] []) absent_sys)) = Some ''{}''"
proof -
  have a: "specs_dir absent_sys = None" by (simp add: absent_sys_def)
  from main_specs_dir_absent [OF a, of "\<lambda>i cmd inp. Exited 0 [] []"] a
  show ?thesis by (simp add: absent_sys_def)
qed

section \<open>The progress store\<close>

lemma wf_initial_state: "wf_json initial_state"
  by (simp add: initial_state_def)

lemma load_state_wf: "load_state w = Inr st \<Longrightarrow> wf_json st"
  by (auto simp: load_state_def wf_initial_state split: option.splits dest: loads_wf)

lemma load_save_state: "wf_json st \<Longrightarrow> load_state (save_state st w) = Inr st"
  by (simp add: load_state_def loads_dumps)

lemma wf_pairs_map_of: "wf_pairs kvs \<Longrightarrow> map_of kvs k = Some v \<Longrightarrow> wf_json v"
  by (induction kvs) (auto split: if_splits)

lemma wf_items_append: "wf_items (xs @ ys) \<longleftrightarrow> wf_items xs \<and> wf_items ys"
  by (induction xs) auto



lemma get_done_list: "get_done st = Inr v \<Longrightarrow> \<exists>kvs. st = JObj kvs \<and> map_of kvs ''done'' = Some v"
  by (cases st) (auto split: option.splits)



definition noted_state :: json where
  "noted_state = JObj [(''owner'', JStr ''crm''), (''done'', JArr [JStr ''01-a.md'']), (''runs'', JInt 3)]"

definition noted_sys :: sys where
  "noted_sys = \<lparr>specs_dir = Some [(''01-a.md'', Some ''first''), (''02-b.md'', Some ''second'')],
                state_file = Some (dumps noted_state), calls = 0, log = []\<rparr>"


definition noted_committed :: json where
  "noted_committed =
     JObj [(''owner'', JStr ''crm''), (''done'', JArr [JStr ''01-a.md'', JStr ''02-b.md'']),
           (''runs'', JInt 3)]"

lemma loads_Nil: "loads [] = Inl JSONDecodeError"
  by (simp add: loads_def skip_ws_def)

text \<open>
  Claim C1 does not hold. \<^verbatim>\<open>save_state\<close> writes the state file in place: the file is
  emptied and then filled. Cut off after the truncation, or after the first eleven
  characters, the file loads neither as the record before the commit nor as the record
  after it: \<^verbatim>\<open>json.loads\<close> raises.
\<close>

theorem commit_not_atomic_counterexample:
  "append_done ''02-b.md'' noted_state = Inr noted_committed
   \<and> load_state noted_sys = Inr noted_state
   \<and> load_state (save_state noted_committed noted_sys) = Inr noted_committed
   \<and> load_state (save_state_interrupted 1 noted_committed noted_sys) = Inl JSONDecodeError
   \<and> load_state (save_state_interrupted 12 noted_committed noted_sys) = Inl JSONDecodeError"
proof -
  have a: "append_done ''02-b.md'' noted_state = Inr noted_committed"
    by (simp add: append_done_def noted_state_def noted_committed_def)
  have b: "load_state noted_sys = Inr noted_state"
    by (simp add: load_state_def noted_sys_def loads_dumps noted_state_def)
  have c: "load_state (save_state noted_committed noted_sys) = Inr noted_committed"
    by (rule load_save_state) (simp add: noted_committed_def)
  have d: "load_state (save_state_interrupted 1 noted_committed noted_sys) = Inl JSONDecodeError"
    by (simp add: load_state_def save_state_interrupted_def write_text_upto_def loads_Nil)
  have "loads (take 11 (dumps noted_committed)) = Inl JSONDecodeError"
    by code_simp
  then have e: "load_state (save_state_interrupted 12 noted_committed noted_sys) = Inl JSONDecodeError"
    by (simp add: load_state_def save_state_interrupted_def write_text_upto_def)
  from a b c d e show ?thesis by simp
qed

text \<open>
  Claim C1 as amended. A commit cut off after \<open>k\<close> steps of the write leaves the record
  before the commit when no step was taken and the record after it when all were; in
  between the file holds a proper prefix of the new text and a load reads that prefix,
  which right after the truncation is empty and makes the load fail.
\<close>

theorem save_state_interrupted_load:
  assumes "wf_json st"
  shows "load_state (save_state_interrupted k st w) =
           (if k = 0 then load_state w
            else if length (dumps st) < k then Inr st
            else loads (take (k - 1) (dumps st)))
         \<and> state_file (save_state_interrupted (Suc (length (dumps st))) st w) = state_file (save_state st w)
         \<and> load_state (save_state_interrupted 1 st w) = Inl JSONDecodeError"
  using assms
  by (simp add: load_state_def save_state_interrupted_def write_text_upto_def loads_dumps
      loads_Nil write_text_def)

theorem save_state_interrupted_load_witness:
  "wf_json noted_committed
   \<and> load_state (save_state_interrupted 0 noted_committed noted_sys) = Inr noted_state
   \<and> load_state (save_state_interrupted 1 noted_committed noted_sys) = Inl JSONDecodeError
   \<and> load_state (save_state_interrupted 500 noted_committed noted_sys) = Inr noted_committed"
proof -
  have wf: "wf_json noted_committed" by (simp add: noted_committed_def)
  have b: "load_state noted_sys = Inr noted_state"
    by (simp add: load_state_def noted_sys_def loads_dumps noted_state_def)
  have l: "length (dumps noted_committed) < 500" by code_simp
  from save_state_interrupted_load [OF wf, of 0 noted_sys]
    save_state_interrupted_load [OF wf, of 1 noted_sys]
    save_state_interrupted_load [OF wf, of 500 noted_sys] wf b l
  show ?thesis by simp
qed

section \<open>Runs, attempts and commits\<close>

text \<open>
  The log of a run splits into attempts: each starts where a spec is announced and
  holds the results of the processes started for it. An attempt succeeded when the
  agent and every verification command were run and all exited with 0. \<open>with_done\<close>
  is a state with its \<^verbatim>\<open>done\<close> list replaced; \<open>reaches\<close> holds of the states at the head
  of the loop during a run of \<^verbatim>\<open>main\<close>; \<open>restart\<close> is the machine as the next run of the
  script finds it.
\<close>

fun is_processing :: "event \<Rightarrow> bool" where
  "is_processing (Print_processing n) = True"
| "is_processing ev = False"

definition results :: "event list \<Rightarrow> proc list" where
  "results evs = map (\<lambda>x. snd (snd x)) (execs evs)"

fun exit_ok :: "proc \<Rightarrow> bool" where
  "exit_ok (Exited rc out err) = (rc = 0)"
| "exit_ok Not_launched = False"

fun attempts :: "event list \<Rightarrow> (string \<times> (string list \<times> string option \<times> proc) list) list" where
  "attempts [] = []"
| "attempts (Print_processing n # evs) =
     (n, execs (takeWhile (\<lambda>e. \<not> is_processing e) evs)) # attempts evs"
| "attempts (ev # evs) = attempts evs"

definition all_passed :: "proc list \<Rightarrow> bool" where
  "all_passed rs \<longleftrightarrow> length rs = Suc (length VERIFY_COMMANDS) \<and> list_all exit_ok rs"

definition succeeded :: "string \<times> (string list \<times> string option \<times> proc) list \<Rightarrow> bool" where
  "succeeded a \<longleftrightarrow>
     map fst (snd a) = claude_cmd # VERIFY_COMMANDS
     \<and> list_all exit_ok (map (\<lambda>x. snd (snd x)) (snd a))"

definition with_done :: "json list \<Rightarrow> json \<Rightarrow> json" where
  "with_done ds st =
     (case st of JObj kvs \<Rightarrow> JObj (AList.update ''done'' (JArr ds) kvs) | _ \<Rightarrow> st)"

inductive reaches :: "env \<Rightarrow> sys \<Rightarrow> json \<times> sys \<Rightarrow> bool" for env :: env and w :: sys where
  start: "specs_dir w \<noteq> None \<Longrightarrow> load_state w = Inr st \<Longrightarrow> reaches env w (st, w)"
| step: "reaches env w s \<Longrightarrow> iteration env s = Inr s' \<Longrightarrow> reaches env w s'"

definition restart :: "sys \<Rightarrow> sys" where
  "restart w = w\<lparr>calls := 0, log := []\<rparr>"

subsection \<open>The ways through the loop body\<close>

lemma iteration_cases [case_names no_done next_err all_done read_err agent_raise agent_fail
    verify_raise verify_fail append_err commit]:
  obtains
    e where "get_done st = Inl e" and "iteration env (st, w) = Inl (Raised e, w)"
  | dn e where "get_done st = Inr dn" and "get_next_spec dn w = Inl e"
      and "iteration env (st, w) = Inl (Raised e, w)"
  | dn where "get_done st = Inr dn" and "get_next_spec dn w = Inr None"
      and "iteration env (st, w) = Inl (All_done, emit Print_all_done w)"
  | dn name e where "get_done st = Inr dn" and "get_next_spec dn w = Inr (Some name)"
      and "read_text name w = Inl e"
      and "iteration env (st, w) = Inl (Raised e, emit (Print_processing name) w)"
  | dn name stx e w2 where "get_done st = Inr dn" and "get_next_spec dn w = Inr (Some name)"
      and "read_text name w = Inr stx"
      and "run_claude env (make_prompt stx) (emit (Print_processing name) w) = (Inl e, w2)"
      and "iteration env (st, w) = Inl (Raised e, w2)"
  | dn name stx rc out w2 where "get_done st = Inr dn" and "get_next_spec dn w = Inr (Some name)"
      and "read_text name w = Inr stx"
      and "run_claude env (make_prompt stx) (emit (Print_processing name) w) = (Inr (rc, out), w2)"
      and "rc \<noteq> 0"
      and "iteration env (st, w) = Inl (Agent_failed, emit Print_claude_failed w2)"
  | dn name stx out w2 e w3 where "get_done st = Inr dn" and "get_next_spec dn w = Inr (Some name)"
      and "read_text name w = Inr stx"
      and "run_claude env (make_prompt stx) (emit (Print_processing name) w) = (Inr (0, out), w2)"
      and "verify_loop env VERIFY_COMMANDS w2 = (Inl e, w3)"
      and "iteration env (st, w) = Inl (Raised e, w3)"
  | dn name stx out w2 w3 where "get_done st = Inr dn" and "get_next_spec dn w = Inr (Some name)"
      and "read_text name w = Inr stx"
      and "run_claude env (make_prompt stx) (emit (Print_processing name) w) = (Inr (0, out), w2)"
      and "verify_loop env VERIFY_COMMANDS w2 = (Inr False, w3)"
      and "iteration env (st, w) = Inl (Verify_failed, w3)"
  | dn name stx out w2 w3 e where "get_done st = Inr dn" and "get_next_spec dn w = Inr (Some name)"
      and "read_text name w = Inr stx"
      and "run_claude env (make_prompt stx) (emit (Print_processing name) w) = (Inr (0, out), w2)"
      and "verify_loop env VERIFY_COMMANDS w2 = (Inr True, w3)"
      and "append_done name st = Inl e"
      and "iteration env (st, w) = Inl (Raised e, w3)"
  | dn name stx out w2 w3 st' where "get_done st = Inr dn" and "get_next_spec dn w = Inr (Some name)"
      and "read_text name w = Inr stx"
      and "run_claude env (make_prompt stx) (emit (Print_processing name) w) = (Inr (0, out), w2)"
      and "verify_loop env VERIFY_COMMANDS w2 = (Inr True, w3)"
      and "append_done name st = Inr st'"
      and "iteration env (st, w) =
             Inr (st', emit Sleep (emit (Print_completed name) (save_state st' w3)))"
proof (cases "get_done st")
  case (Inl e)
  then have "iteration env (st, w) = Inl (Raised e, w)" by (simp add: iteration_def)
  with Inl show ?thesis by (rule that(1))
next
  case dn: (Inr dn)
  show ?thesis
  proof (cases "get_next_spec dn w")
    case (Inl e)
    with dn have "iteration env (st, w) = Inl (Raised e, w)" by (simp add: iteration_def)
    with dn Inl show ?thesis by (rule that(2))
  next
    case nx: (Inr nxt)
    show ?thesis
    proof (cases nxt)
      case None
      with dn nx have "iteration env (st, w) = Inl (All_done, emit Print_all_done w)"
        by (simp add: iteration_def)
      with dn nx None show ?thesis by (intro that(3)) simp_all
    next
      case (Some name)
      note sel = nx [unfolded Some]
      let ?w1 = "emit (Print_processing name) w"
      have rt: "read_text name ?w1 = read_text name w" by (simp add: read_text_def)
      show ?thesis
      proof (cases "read_text name w")
        case (Inl e)
        with dn sel rt have "iteration env (st, w) = Inl (Raised e, ?w1)"
          by (simp add: iteration_def Let_def)
        with dn sel Inl show ?thesis by (rule that(4))
      next
        case stx: (Inr stx)
        obtain a w2 where rc: "run_claude env (make_prompt stx) ?w1 = (a, w2)"
          by (cases "run_claude env (make_prompt stx) ?w1")
        show ?thesis
        proof (cases a)
          case (Inl e)
          with dn sel rt stx rc have "iteration env (st, w) = Inl (Raised e, w2)"
            by (simp add: iteration_def Let_def)
          with dn sel stx rc [unfolded Inl] show ?thesis by (rule that(5))
        next
          case (Inr p)
          obtain code out where p: "p = (code, out)" by (cases p)
          note rc' = rc [unfolded Inr p]
          show ?thesis
          proof (cases "code = 0")
            case False
            with dn sel rt stx rc' have
              "iteration env (st, w) = Inl (Agent_failed, emit Print_claude_failed w2)"
              by (simp add: iteration_def Let_def)
            with dn sel stx rc' False show ?thesis by (rule that(6))
          next
            case True
            note rc0 = rc' [unfolded True]
            obtain b w3 where vl: "verify_loop env VERIFY_COMMANDS w2 = (b, w3)"
              by (cases "verify_loop env VERIFY_COMMANDS w2")
            show ?thesis
            proof (cases b)
              case (Inl e)
              with dn sel rt stx rc0 vl have "iteration env (st, w) = Inl (Raised e, w3)"
                by (simp add: iteration_def Let_def)
              with dn sel stx rc0 vl [unfolded Inl] show ?thesis by (rule that(7))
            next
              case (Inr ok)
              show ?thesis
              proof (cases ok)
                case False
                then have okF: "ok = False" by simp
                with dn sel rt stx rc0 vl Inr have
                  "iteration env (st, w) = Inl (Verify_failed, w3)"
                  by (simp add: iteration_def Let_def)
                with dn sel stx rc0 vl [unfolded Inr okF] show ?thesis by (rule that(8))
              next
                case True
                then have okT: "ok = True" by simp
                note vl' = vl [unfolded Inr okT]
                show ?thesis
                proof (cases "append_done name st")
                  case (Inl e)
                  with dn sel rt stx rc0 vl' have "iteration env (st, w) = Inl (Raised e, w3)"
                    by (simp add: iteration_def Let_def)
                  with dn sel stx rc0 vl' Inl show ?thesis by (rule that(9))
                next
                  case (Inr st')
                  with dn sel rt stx rc0 vl' have
                    "iteration env (st, w) =
                       Inr (st', emit Sleep (emit (Print_completed name) (save_state st' w3)))"
                    by (simp add: iteration_def Let_def)
                  with dn sel stx rc0 vl' Inr show ?thesis by (rule that(10))
                qed
              qed
            qed
          qed
        qed
      qed
    qed
  qed
qed

subsection \<open>What a pass through the loop adds to the log\<close>

definition quiet :: "event list \<Rightarrow> bool" where
  "quiet evs \<longleftrightarrow> list_all (\<lambda>e. \<not> is_processing e) evs \<and> writes evs = []"

lemma quiet_Nil [simp]: "quiet []"
  by (simp add: quiet_def)

lemma quiet_append [simp]: "quiet (xs @ ys) \<longleftrightarrow> quiet xs \<and> quiet ys"
  by (auto simp: quiet_def)

lemma quiet_single [simp]:
  "quiet [Print_cmd c]" "quiet [Print_output t]" "quiet [Exec c i r]" "quiet [Print_all_done]"
  "quiet [Print_claude_failed]" "quiet [Print_verify_failed]" "quiet [Print_not_found]"
  by (simp_all add: quiet_def)

lemma results_append [simp]: "results (xs @ ys) = results xs @ results ys"
  by (simp add: results_def)

lemma results_simps [simp]:
  "results [] = []"
  "results (Exec c i r # evs) = r # results evs"
  "results (Print_cmd c # evs) = results evs"
  "results (Print_output t # evs) = results evs"
  "results (Print_all_done # evs) = results evs"
  "results (Print_claude_failed # evs) = results evs"
  "results (Print_verify_failed # evs) = results evs"
  "results (Print_completed n # evs) = results evs"
  "results (Write_state t # evs) = results evs"
  "results (Sleep # evs) = results evs"
  "results (Print_processing n # evs) = results evs"
  "results (Print_not_found # evs) = results evs"
  by (simp_all add: results_def)

lemma launched_simps [simp]:
  "launched [] = []"
  "launched (Exec c i r # evs) = c # launched evs"
  "launched (Print_cmd c # evs) = launched evs"
  "launched (Print_output t # evs) = launched evs"
  "launched (Print_all_done # evs) = launched evs"
  "launched (Print_claude_failed # evs) = launched evs"
  "launched (Print_verify_failed # evs) = launched evs"
  "launched (Print_completed n # evs) = launched evs"
  "launched (Write_state t # evs) = launched evs"
  "launched (Sleep # evs) = launched evs"
  "launched (Print_processing n # evs) = launched evs"
  "launched (Print_not_found # evs) = launched evs"
  by (simp_all add: launched_def)

lemma run_claude_log:
  assumes "run_claude env p w = (r, w1)"
  shows "\<exists>evs. log w1 = log w @ evs \<and> quiet evs \<and> launched evs = [claude_cmd]
           \<and> (case r of Inl e \<Rightarrow> results evs = [Not_launched]
               | Inr x \<Rightarrow> \<exists>out err. results evs = [Exited (fst x) out err])"
proof (cases "env (calls w) claude_cmd (Some p)")
  case (Exited rc out err)
  let ?evs = "[Exec claude_cmd (Some p) (Exited rc out err), Print_cmd claude_cmd,
               Print_output (out @ err)]"
  from assms Exited have "log w1 = log w @ ?evs" and "r = Inr (rc, out @ err)"
    by (auto simp: run_claude_def subprocess_run_def Let_def)
  moreover have "quiet ?evs" by (simp add: quiet_def)
  ultimately show ?thesis by auto
next
  case Not_launched
  let ?evs = "[Exec claude_cmd (Some p) Not_launched]"
  from assms Not_launched have "log w1 = log w @ ?evs" and "r = Inl LaunchError"
    by (auto simp: run_claude_def subprocess_run_def Let_def)
  then show ?thesis by auto
qed

lemma run_cmd_log:
  assumes "run_cmd env cmd w = (r, w1)"
  shows "\<exists>evs. log w1 = log w @ evs \<and> quiet evs \<and> launched evs = [cmd]
           \<and> (case r of Inl e \<Rightarrow> results evs = [Not_launched]
               | Inr x \<Rightarrow> \<exists>out err. results evs = [Exited (fst x) out err])"
proof (cases "env (calls w) cmd None")
  case (Exited rc out err)
  let ?evs = "[Print_cmd cmd, Exec cmd None (Exited rc out err), Print_output (out @ err)]"
  from assms Exited have "log w1 = log w @ ?evs" and "r = Inr (rc, out @ err)"
    by (auto simp: run_cmd_def subprocess_run_def Let_def)
  moreover have "quiet ?evs" by (simp add: quiet_def)
  ultimately show ?thesis by auto
next
  case Not_launched
  let ?evs = "[Print_cmd cmd, Exec cmd None Not_launched]"
  from assms Not_launched have "log w1 = log w @ ?evs" and "r = Inl LaunchError"
    by (auto simp: run_cmd_def subprocess_run_def Let_def)
  moreover have "quiet ?evs" by (simp add: quiet_def)
  ultimately show ?thesis by auto
qed

lemma verify_loop_log:
  "verify_loop env cmds w = (r, w1) \<Longrightarrow>
     \<exists>evs. log w1 = log w @ evs \<and> quiet evs
       \<and> (r = Inr True \<longrightarrow> launched evs = cmds \<and> list_all exit_ok (results evs))
       \<and> (r \<noteq> Inr True \<longrightarrow> \<not> list_all exit_ok (results evs))"
proof (induction cmds arbitrary: w)
  case Nil
  then show ?case by auto
next
  case (Cons cmd cmds)
  obtain a w2 where rc: "run_cmd env cmd w = (a, w2)" by (cases "run_cmd env cmd w")
  from run_cmd_log [OF rc] obtain e1 where
    l1: "log w2 = log w @ e1" and q1: "quiet e1" and la1: "launched e1 = [cmd]"
    and r1: "case a of Inl e \<Rightarrow> results e1 = [Not_launched]
               | Inr x \<Rightarrow> \<exists>out err. results e1 = [Exited (fst x) out err]"
    by blast
  show ?case
  proof (cases a)
    case (Inl e)
    with Cons.prems rc have "r = Inl e" "w1 = w2" by simp_all
    with l1 q1 r1 Inl show ?thesis by auto
  next
    case (Inr p)
    obtain code out where p: "p = (code, out)" by (cases p)
    from r1 Inr p obtain o1 er1 where re: "results e1 = [Exited code o1 er1]" by auto
    show ?thesis
    proof (cases "code = 0")
      case False
      with Cons.prems rc Inr p have "r = Inr False" "w1 = emit Print_verify_failed w2"
        by simp_all
      with l1 q1 re False have
        "log w1 = log w @ (e1 @ [Print_verify_failed])" "quiet (e1 @ [Print_verify_failed])"
        "\<not> list_all exit_ok (results (e1 @ [Print_verify_failed]))" "r \<noteq> Inr True"
        by simp_all
      then show ?thesis by blast
    next
      case True
      with Cons.prems rc Inr p have "verify_loop env cmds w2 = (r, w1)" by simp
      from Cons.IH [OF this] obtain e2 where
        l2: "log w1 = log w2 @ e2" and q2: "quiet e2"
        and ok: "r = Inr True \<longrightarrow> launched e2 = cmds \<and> list_all exit_ok (results e2)"
        and bad: "r \<noteq> Inr True \<longrightarrow> \<not> list_all exit_ok (results e2)"
        by blast
      from l1 l2 q1 q2 have "log w1 = log w @ (e1 @ e2)" "quiet (e1 @ e2)" by simp_all
      moreover from ok re True la1 have
        "r = Inr True \<longrightarrow> launched (e1 @ e2) = cmd # cmds
           \<and> list_all exit_ok (results (e1 @ e2))"
        by simp
      moreover from bad re have "r \<noteq> Inr True \<longrightarrow> \<not> list_all exit_ok (results (e1 @ e2))"
        by simp
      ultimately show ?thesis by blast
    qed
  qed
qed

lemma quietD: "quiet evs \<Longrightarrow> list_all (\<lambda>e. \<not> is_processing e) evs" "quiet evs \<Longrightarrow> writes evs = []"
  by (simp_all add: quiet_def)

lemma length_VERIFY_COMMANDS: "length VERIFY_COMMANDS = 2"
  by (simp add: VERIFY_COMMANDS_def)

lemma with_done_JObj: "with_done ds (JObj kvs) = JObj (AList.update ''done'' (JArr ds) kvs)"
  by (simp add: with_done_def)

lemma append_done_Inl_not_list:
  "get_done st = Inr (JArr vs) \<Longrightarrow> append_done name st \<noteq> Inl e"
  by (cases st) (auto simp: append_done_def split: option.splits)

lemma succeeded_all_passed: "succeeded (n, execs evs) \<Longrightarrow> all_passed (results evs)"
proof -
  assume s: "succeeded (n, execs evs)"
  then have "length (launched evs) = length (claude_cmd # VERIFY_COMMANDS)"
    by (simp add: succeeded_def launched_def)
  then have "length (results evs) = Suc (length VERIFY_COMMANDS)"
    by (simp add: launched_def results_def)
  with s show ?thesis by (simp add: all_passed_def succeeded_def results_def)
qed

lemma not_succeeded:
  "length (results evs) \<noteq> 3 \<Longrightarrow> \<not> succeeded (n, execs evs)"
  "\<not> list_all exit_ok (results evs) \<Longrightarrow> \<not> succeeded (n, execs evs)"
  by (auto dest: succeeded_all_passed simp: all_passed_def length_VERIFY_COMMANDS)

lemma iteration_Inr_log:
  assumes "iteration env (st, w) = Inr (st', w')"
  shows "\<exists>kvs vs name body. st = JObj kvs \<and> map_of kvs ''done'' = Some (JArr vs)
           \<and> find (\<lambda>n. JStr n \<notin> set vs) (sorted_specs w) = Some name
           \<and> st' = with_done (vs @ [JStr name]) st
           \<and> log w' = log w @ Print_processing name # body
           \<and> list_all (\<lambda>e. \<not> is_processing e) body
           \<and> writes body = [dumps st']
           \<and> succeeded (name, execs body)
           \<and> specs_dir w' = specs_dir w
           \<and> state_file w' = Some (dumps st')"
proof (cases rule: iteration_cases [where st = st and env = env and w = w])
  case (commit dn name stx out w2 w3 st1)
  with assms have st1: "st1 = st'"
    and w': "w' = emit Sleep (emit (Print_completed name) (save_state st' w3))"
    by auto
  from append_done_Inr [OF commit(6)] st1 obtain kvs vs where
    st: "st = JObj kvs" "map_of kvs ''done'' = Some (JArr vs)"
    and st': "st' = with_done (vs @ [JStr name]) st"
    by (auto simp: with_done_JObj)
  from st commit(1) have dn: "dn = JArr vs" by simp
  with commit(2) have f: "find (\<lambda>n. JStr n \<notin> set vs) (sorted_specs w) = Some name"
    by (simp add: get_next_spec_def first_not_in_list)
  from run_claude_log [OF commit(4)] obtain e1 o1 er1 where
    l1: "log w2 = log w @ [Print_processing name] @ e1" and q1: "quiet e1"
    and r1: "results e1 = [Exited 0 o1 er1]" and la1: "launched e1 = [claude_cmd]"
    by auto
  from verify_loop_log [OF commit(5)] obtain e2 where
    l2: "log w3 = log w2 @ e2" and q2: "quiet e2"
    and r2: "launched e2 = VERIFY_COMMANDS" "list_all exit_ok (results e2)"
    by auto
  let ?body = "e1 @ e2 @ [Write_state (dumps st'), Print_completed name, Sleep]"
  have "log w' = log w @ Print_processing name # ?body"
    using w' l1 l2 by simp
  moreover have "list_all (\<lambda>e. \<not> is_processing e) ?body"
    using quietD(1) [OF q1] quietD(1) [OF q2] by simp
  moreover have "writes ?body = [dumps st']"
    using quietD(2) [OF q1] quietD(2) [OF q2] by simp
  moreover have "succeeded (name, execs ?body)"
    using r1 r2 la1 by (simp add: succeeded_def launched_def [symmetric] results_def [symmetric])
  moreover have "specs_dir w' = specs_dir w"
    using w' verify_loop_files [OF commit(5)] run_claude_files [OF commit(4)] by simp
  moreover have "state_file w' = Some (dumps st')" using w' by simp
  ultimately show ?thesis using st st' f by blast
qed (use assms in simp_all)

lemma iteration_Inl_log:
  assumes "iteration env (st, w) = Inl (out, w')"
  shows "state_file w' = state_file w \<and> specs_dir w' = specs_dir w
         \<and> (\<exists>seg. log w' = log w @ seg \<and> writes seg = []
              \<and> ((list_all (\<lambda>e. \<not> is_processing e) seg \<and> results seg = []
                    \<and> out \<noteq> Agent_failed \<and> out \<noteq> Verify_failed
                    \<and> (\<forall>dn name. get_done st = Inr dn \<longrightarrow> get_next_spec dn w \<noteq> Inr (Some name)))
                 \<or> (\<exists>name body dn. seg = Print_processing name # body
                       \<and> list_all (\<lambda>e. \<not> is_processing e) body
                       \<and> get_done st = Inr dn \<and> get_next_spec dn w = Inr (Some name)
                       \<and> (\<forall>vs. dn = JArr vs \<longrightarrow> \<not> succeeded (name, execs body)))))"
proof (cases rule: iteration_cases [where st = st and env = env and w = w])
  case (no_done e)
  with assms have "out = Raised e" "w' = w" by simp_all
  then have "log w' = log w @ []" "writes ([]::event list) = []"
    "list_all (\<lambda>e. \<not> is_processing e) ([]::event list)" "results [] = []"
    "out \<noteq> Agent_failed" "out \<noteq> Verify_failed" "state_file w' = state_file w"
    "specs_dir w' = specs_dir w"
    by simp_all
  moreover have "\<forall>dn name. get_done st = Inr dn \<longrightarrow> get_next_spec dn w \<noteq> Inr (Some name)"
    using no_done(1) by simp
  ultimately show ?thesis by blast
next
  case (next_err dn e)
  with assms have "out = Raised e" "w' = w" by simp_all
  then have "log w' = log w @ []" "writes ([]::event list) = []"
    "list_all (\<lambda>e. \<not> is_processing e) ([]::event list)" "results [] = []"
    "out \<noteq> Agent_failed" "out \<noteq> Verify_failed" "state_file w' = state_file w"
    "specs_dir w' = specs_dir w"
    by simp_all
  moreover have "\<forall>dn name. get_done st = Inr dn \<longrightarrow> get_next_spec dn w \<noteq> Inr (Some name)"
    using next_err(1,2) by simp
  ultimately show ?thesis by blast
next
  case (all_done dn)
  with assms have "out = All_done" "w' = emit Print_all_done w" by simp_all
  then have "log w' = log w @ [Print_all_done]" "writes [Print_all_done] = []"
    "list_all (\<lambda>e. \<not> is_processing e) [Print_all_done]" "results [Print_all_done] = []"
    "out \<noteq> Agent_failed" "out \<noteq> Verify_failed" "state_file w' = state_file w"
    "specs_dir w' = specs_dir w"
    by simp_all
  moreover have "\<forall>dn name. get_done st = Inr dn \<longrightarrow> get_next_spec dn w \<noteq> Inr (Some name)"
    using all_done(1,2) by simp
  ultimately show ?thesis by blast
next
  case (read_err dn name e)
  with assms have w': "w' = emit (Print_processing name) w" by simp
  have "log w' = log w @ Print_processing name # []" "writes (Print_processing name # []) = []"
    "list_all (\<lambda>e. \<not> is_processing e) ([]::event list)"
    "\<forall>vs. dn = JArr vs \<longrightarrow> \<not> succeeded (name, execs [])"
    "state_file w' = state_file w" "specs_dir w' = specs_dir w"
    using w' by (simp_all add: succeeded_def)
  with read_err(1,2) show ?thesis by blast
next
  case (agent_raise dn name stx e w2)
  with assms have w': "w' = w2" by simp
  from run_claude_log [OF agent_raise(4)] obtain e1 where
    l1: "log w2 = log w @ [Print_processing name] @ e1" and q1: "quiet e1"
    and r1: "results e1 = [Not_launched]"
    by auto
  have "log w' = log w @ Print_processing name # e1" "writes (Print_processing name # e1) = []"
    "list_all (\<lambda>e. \<not> is_processing e) e1"
    "\<forall>vs. dn = JArr vs \<longrightarrow> \<not> succeeded (name, execs e1)"
    "state_file w' = state_file w" "specs_dir w' = specs_dir w"
    using w' l1 quietD [OF q1] r1 run_claude_files [OF agent_raise(4)]
    by (simp_all add: not_succeeded del: execs_append)
  with agent_raise(1,2) show ?thesis by blast
next
  case (agent_fail dn name stx rc out1 w2)
  with assms have w': "w' = emit Print_claude_failed w2" by simp
  from run_claude_log [OF agent_fail(4)] obtain e1 o1 er1 where
    l1: "log w2 = log w @ [Print_processing name] @ e1" and q1: "quiet e1"
    and r1: "results e1 = [Exited rc o1 er1]"
    by auto
  let ?body = "e1 @ [Print_claude_failed]"
  have "log w' = log w @ Print_processing name # ?body"
    "writes (Print_processing name # ?body) = []"
    "list_all (\<lambda>e. \<not> is_processing e) ?body"
    "\<forall>vs. dn = JArr vs \<longrightarrow> \<not> succeeded (name, execs ?body)"
    "state_file w' = state_file w" "specs_dir w' = specs_dir w"
    using w' l1 quietD [OF q1] r1 run_claude_files [OF agent_fail(4)] agent_fail(5)
    by (simp_all add: not_succeeded del: execs_append)
  with agent_fail(1,2) show ?thesis by blast
next
  case (verify_raise dn name stx out1 w2 e w3)
  with assms have w': "w' = w3" by simp
  from run_claude_log [OF verify_raise(4)] obtain e1 where
    l1: "log w2 = log w @ [Print_processing name] @ e1" and q1: "quiet e1"
    by auto
  from verify_loop_log [OF verify_raise(5)] obtain e2 where
    l2: "log w3 = log w2 @ e2" and q2: "quiet e2"
    and r2: "\<not> list_all exit_ok (results e2)"
    by auto
  let ?body = "e1 @ e2"
  have "log w' = log w @ Print_processing name # ?body"
    "writes (Print_processing name # ?body) = []"
    "list_all (\<lambda>e. \<not> is_processing e) ?body"
    "\<forall>vs. dn = JArr vs \<longrightarrow> \<not> succeeded (name, execs ?body)"
    "state_file w' = state_file w" "specs_dir w' = specs_dir w"
    using w' l1 l2 quietD [OF q1] quietD [OF q2] r2 run_claude_files [OF verify_raise(4)]
      verify_loop_files [OF verify_raise(5)]
    by (simp_all add: not_succeeded del: execs_append)
  with verify_raise(1,2) show ?thesis by blast
next
  case (verify_fail dn name stx out1 w2 w3)
  with assms have w': "w' = w3" by simp
  from run_claude_log [OF verify_fail(4)] obtain e1 where
    l1: "log w2 = log w @ [Print_processing name] @ e1" and q1: "quiet e1"
    by auto
  from verify_loop_log [OF verify_fail(5)] obtain e2 where
    l2: "log w3 = log w2 @ e2" and q2: "quiet e2"
    and r2: "\<not> list_all exit_ok (results e2)"
    by auto
  let ?body = "e1 @ e2"
  have "log w' = log w @ Print_processing name # ?body"
    "writes (Print_processing name # ?body) = []"
    "list_all (\<lambda>e. \<not> is_processing e) ?body"
    "\<forall>vs. dn = JArr vs \<longrightarrow> \<not> succeeded (name, execs ?body)"
    "state_file w' = state_file w" "specs_dir w' = specs_dir w"
    using w' l1 l2 quietD [OF q1] quietD [OF q2] r2 run_claude_files [OF verify_fail(4)]
      verify_loop_files [OF verify_fail(5)]
    by (simp_all add: not_succeeded del: execs_append)
  with verify_fail(1,2) show ?thesis by blast
next
  case (append_err dn name stx out1 w2 w3 e)
  with assms have w': "w' = w3" by simp
  from run_claude_log [OF append_err(4)] obtain e1 where
    l1: "log w2 = log w @ [Print_processing name] @ e1" and q1: "quiet e1"
    by auto
  from verify_loop_log [OF append_err(5)] obtain e2 where
    l2: "log w3 = log w2 @ e2" and q2: "quiet e2"
    by auto
  let ?body = "e1 @ e2"
  have nl: "\<forall>vs. dn = JArr vs \<longrightarrow> \<not> succeeded (name, execs ?body)"
    using append_done_Inl_not_list [of st _ name e] append_err(1,6) by auto
  have "log w' = log w @ Print_processing name # ?body"
    "writes (Print_processing name # ?body) = []"
    "list_all (\<lambda>e. \<not> is_processing e) ?body"
    "state_file w' = state_file w" "specs_dir w' = specs_dir w"
    using w' l1 l2 quietD [OF q1] quietD [OF q2] run_claude_files [OF append_err(4)]
      verify_loop_files [OF append_err(5)]
    by simp_all
  with append_err(1,2) nl show ?thesis by blast
next
  case (commit dn name stx out1 w2 w3 st1)
  with assms show ?thesis by simp
qed

subsection \<open>Attempts of a whole run\<close>

definition clean :: "event list \<Rightarrow> bool" where
  "clean evs \<longleftrightarrow> execs (takeWhile (\<lambda>e. \<not> is_processing e) evs) = []"

lemma attempts_skip: "\<not> is_processing ev \<Longrightarrow> attempts (ev # evs) = attempts evs"
  by (cases ev) simp_all

lemma attempts_quiet_prefix:
  "list_all (\<lambda>e. \<not> is_processing e) xs \<Longrightarrow> attempts (xs @ ys) = attempts ys"
  by (induction xs) (simp_all add: attempts_skip)

lemma clean_simps [simp]: "clean []" "clean (Print_processing n # evs)"
  by (simp_all add: clean_def)

lemma clean_quiet:
  "list_all (\<lambda>e. \<not> is_processing e) seg \<Longrightarrow> results seg = [] \<Longrightarrow> clean seg"
  by (simp add: clean_def takeWhile_eq_all_conv [THEN iffD2] list_all_iff results_def)

lemma attempts_segment:
  assumes "list_all (\<lambda>e. \<not> is_processing e) body" and "clean rest"
  shows "attempts (Print_processing n # body @ rest) = (n, execs body) # attempts rest"
proof -
  have "takeWhile (\<lambda>e. \<not> is_processing e) (body @ rest)
          = body @ takeWhile (\<lambda>e. \<not> is_processing e) rest"
    using assms(1) by (simp add: takeWhile_append2 list_all_iff)
  then show ?thesis
    using assms by (simp add: clean_def attempts_quiet_prefix)
qed

lemma with_done_twice: "with_done ds (with_done ds' st) = with_done ds st"
  by (cases st) (simp_all add: with_done_def)

lemma get_done_with_done: "get_done (with_done ds (JObj kvs)) = Inr (JArr ds)"
  by (simp add: with_done_def update_conv')

lemma with_done_same: "get_done st = Inr (JArr vs) \<Longrightarrow> with_done vs st = st"
  by (cases st) (auto simp: with_done_def update_triv split: option.splits)

lemma wf_items_strs: "wf_items (map JStr names)"
  by (induction names) simp_all

lemma wf_with_done:
  assumes "wf_json st" and "wf_items ds"
  shows "wf_json (with_done ds st)"
  using assms by (cases st) (simp_all add: with_done_def distinct_update wf_pairs_update)

lemma sorted_specs_cong: "specs_dir w1 = specs_dir w \<Longrightarrow> sorted_specs w1 = sorted_specs w"
  by (simp add: sorted_specs_def glob_md_def)

lemma main_loop_run:
  assumes "main_loop env (st, w) = (out, w')" and "get_done st = Inr (JArr vs)"
  shows "\<exists>evs names. log w' = log w @ evs \<and> clean evs
           \<and> names = map fst (filter succeeded (attempts evs))
           \<and> writes evs =
               map (\<lambda>i. dumps (with_done (vs @ map JStr (take (Suc i) names)) st)) [0..<length names]
           \<and> state_file w' =
               (if names = [] then state_file w
                else Some (dumps (with_done (vs @ map JStr names) st)))
           \<and> distinct names
           \<and> (\<forall>n\<in>set names. JStr n \<notin> set vs \<and> n \<in> set (sorted_specs w))
           \<and> specs_dir w' = specs_dir w"
  using assms
proof (induction env "(st, w)" arbitrary: st w vs rule: main_loop.induct)
  case (1 env)
  show ?case
  proof (cases "iteration env (st, w)")
    case (Inl r)
    with "1.prems"(1) have it: "iteration env (st, w) = Inl (out, w')"
      by (simp add: main_loop.simps [of env "(st, w)"])
    from iteration_Inl_log [OF it] "1.prems"(2) obtain seg where
      f: "state_file w' = state_file w" "specs_dir w' = specs_dir w"
      and l: "log w' = log w @ seg" and wr: "writes seg = []"
      and sh: "(list_all (\<lambda>e. \<not> is_processing e) seg \<and> results seg = [])
               \<or> (\<exists>name body. seg = Print_processing name # body
                     \<and> list_all (\<lambda>e. \<not> is_processing e) body
                     \<and> \<not> succeeded (name, execs body))"
      by auto
    from sh have a: "clean seg \<and> filter succeeded (attempts seg) = []"
    proof
      assume q: "list_all (\<lambda>e. \<not> is_processing e) seg \<and> results seg = []"
      then have "attempts seg = []"
        using attempts_quiet_prefix [of seg "[]"] by simp
      with q show ?thesis by (simp add: clean_quiet)
    next
      assume "\<exists>name body. seg = Print_processing name # body
                \<and> list_all (\<lambda>e. \<not> is_processing e) body \<and> \<not> succeeded (name, execs body)"
      then obtain name body where s: "seg = Print_processing name # body"
        and np: "list_all (\<lambda>e. \<not> is_processing e) body"
        and ns: "\<not> succeeded (name, execs body)"
        by blast
      have "attempts seg = [(name, execs body)]"
        using attempts_segment [OF np, of "[]" name] s by simp
      with s ns show ?thesis by simp
    qed
    show ?thesis
      by (rule exI [of _ seg], rule exI [of _ "[]"]) (use a l wr f in simp)
  next
    case (Inr s1)
    obtain st1 w1 where s1: "s1 = (st1, w1)" by (cases s1)
    note it = Inr [unfolded s1]
    from "1.prems"(1) it have ml: "main_loop env (st1, w1) = (out, w')"
      by (simp add: main_loop.simps [of env "(st, w)"])
    from iteration_Inr_log [OF it] "1.prems"(2) obtain name body where
      fnd: "find (\<lambda>n. JStr n \<notin> set vs) (sorted_specs w) = Some name"
      and st1: "st1 = with_done (vs @ [JStr name]) st"
      and l1: "log w1 = log w @ Print_processing name # body"
      and np: "list_all (\<lambda>e. \<not> is_processing e) body"
      and wb: "writes body = [dumps st1]"
      and su: "succeeded (name, execs body)"
      and sd: "specs_dir w1 = specs_dir w"
      and sf: "state_file w1 = Some (dumps st1)"
      by auto
    from "1.prems"(2) obtain kvs where kvs: "st = JObj kvs" by (cases st) auto
    have gd1: "get_done st1 = Inr (JArr (vs @ [JStr name]))"
      unfolding st1 kvs by (rule get_done_with_done)
    from "1.hyps" [OF it ml gd1] obtain evs1 names1 where
      l2: "log w' = log w1 @ evs1" and c1: "clean evs1"
      and n1: "names1 = map fst (filter succeeded (attempts evs1))"
      and w1: "writes evs1 =
          map (\<lambda>i. dumps (with_done ((vs @ [JStr name]) @ map JStr (take (Suc i) names1)) st1))
            [0..<length names1]"
      and f1: "state_file w' =
          (if names1 = [] then state_file w1
           else Some (dumps (with_done ((vs @ [JStr name]) @ map JStr names1) st1)))"
      and d1: "distinct names1"
      and m1: "\<forall>n\<in>set names1. JStr n \<notin> set (vs @ [JStr name]) \<and> n \<in> set (sorted_specs w1)"
      and sd1: "specs_dir w' = specs_dir w1"
      by blast
    let ?evs = "Print_processing name # body @ evs1"
    let ?names = "name # names1"
    have wd: "\<And>ds. with_done ds st1 = with_done ds st"
      unfolding st1 by (rule with_done_twice)
    have a: "log w' = log w @ ?evs" using l1 l2 by simp
    have b: "clean ?evs" by simp
    have c: "?names = map fst (filter succeeded (attempts ?evs))"
      using attempts_segment [OF np c1, of name] su n1 by simp
    have d: "writes ?evs =
        map (\<lambda>i. dumps (with_done (vs @ map JStr (take (Suc i) ?names)) st)) [0..<length ?names]"
      using wb w1 by (simp add: map_upt_Suc st1 with_done_twice del: upt_Suc)
    have e: "state_file w' = Some (dumps (with_done (vs @ map JStr ?names) st))"
      using f1 sf by (simp add: st1 with_done_twice)
    from fnd have nm: "JStr name \<notin> set vs" "name \<in> set (sorted_specs w)"
      by (auto simp: find_Some_iff)
    have f: "distinct ?names" using d1 m1 by auto
    have g: "\<forall>n\<in>set ?names. JStr n \<notin> set vs \<and> n \<in> set (sorted_specs w)"
      using m1 nm sorted_specs_cong [OF sd] by auto
    have h: "specs_dir w' = specs_dir w" using sd sd1 by simp
    have e': "state_file w' =
        (if ?names = [] then state_file w else Some (dumps (with_done (vs @ map JStr ?names) st)))"
      using e by simp
    show ?thesis
      by (rule exI [of _ ?evs], rule exI [of _ ?names], intro conjI)
        (rule a, rule b, rule c, rule d, rule e', rule f, rule g, rule h)
  qed
qed

lemma load_state_cong: "state_file a = state_file b \<Longrightarrow> load_state a = load_state b"
  by (simp add: load_state_def)

lemma main_run:
  assumes "main env w = (out, w')" and "load_state w = Inr st" and "get_done st = Inr (JArr vs)"
  shows "\<exists>evs names. log w' = log w @ evs
           \<and> names = map fst (filter succeeded (attempts evs))
           \<and> writes evs =
               map (\<lambda>i. dumps (with_done (vs @ map JStr (take (Suc i) names)) st)) [0..<length names]
           \<and> load_state w' = Inr (with_done (vs @ map JStr names) st)
           \<and> get_done (with_done (vs @ map JStr names) st) = Inr (JArr (vs @ map JStr names))
           \<and> distinct names
           \<and> (\<forall>n\<in>set names. JStr n \<notin> set vs \<and> n \<in> set (sorted_specs w))
           \<and> specs_dir w' = specs_dir w"
proof -
  from assms(3) obtain kvs where kvs: "st = JObj kvs" by (cases st) auto
  have gd: "\<And>ds. get_done (with_done ds st) = Inr (JArr ds)"
    unfolding kvs by (rule get_done_with_done)
  have wf: "wf_json st" using assms(2) by (rule load_state_wf)
  show ?thesis
  proof (cases "specs_dir w = None")
    case True
    with assms(1) have w': "w' = emit Print_not_found w" by (simp add: main_def)
    have "state_file w' = state_file w" using w' by simp
    then have "load_state w' = load_state w" by (rule load_state_cong)
    then have l: "load_state w' = Inr (with_done (vs @ map JStr []) st)"
      using assms(2) with_done_same [OF assms(3)] by simp
    have a: "log w' = log w @ [Print_not_found]" using w' by simp
    have b: "[] = map fst (filter succeeded (attempts [Print_not_found]))" by simp
    have c: "writes [Print_not_found] =
        map (\<lambda>i. dumps (with_done (vs @ map JStr (take (Suc i) [])) st)) [0..<length ([]::string list)]"
      by simp
    have d: "distinct ([]::string list)" by simp
    have e: "\<forall>n\<in>set ([]::string list). JStr n \<notin> set vs \<and> n \<in> set (sorted_specs w)" by simp
    have f: "specs_dir w' = specs_dir w" using w' by simp
    show ?thesis
      by (rule exI [of _ "[Print_not_found]"], rule exI [of _ "[]"], intro conjI)
        (rule a, rule b, rule c, rule l, rule gd, rule d, rule e, rule f)
  next
    case False
    with assms(1,2) have "main_loop env (st, w) = (out, w')" by (simp add: main_def)
    from main_loop_run [OF this assms(3)] obtain evs names where
      a: "log w' = log w @ evs"
      and b: "names = map fst (filter succeeded (attempts evs))"
      and c: "writes evs =
          map (\<lambda>i. dumps (with_done (vs @ map JStr (take (Suc i) names)) st)) [0..<length names]"
      and sf: "state_file w' =
          (if names = [] then state_file w
           else Some (dumps (with_done (vs @ map JStr names) st)))"
      and d: "distinct names"
      and e: "\<forall>n\<in>set names. JStr n \<notin> set vs \<and> n \<in> set (sorted_specs w)"
      and f: "specs_dir w' = specs_dir w"
      by blast
    have l: "load_state w' = Inr (with_done (vs @ map JStr names) st)"
    proof (cases "names = []")
      case True
      with sf have "state_file w' = state_file w" by simp
      then have "load_state w' = load_state w" by (rule load_state_cong)
      with True assms(2) with_done_same [OF assms(3)] show ?thesis by simp
    next
      case False
      from assms(3) kvs have mo: "map_of kvs ''done'' = Some (JArr vs)"
        by (simp split: option.splits)
      from wf kvs have "wf_pairs kvs" by simp
      from wf_pairs_map_of [OF this mo] have "wf_items vs" by simp
      then have "wf_items (vs @ map JStr names)"
        by (simp add: wf_items_append wf_items_strs)
      with wf have "wf_json (with_done (vs @ map JStr names) st)"
        by (rule wf_with_done)
      with False sf show ?thesis by (simp add: load_state_def loads_dumps)
    qed
    show ?thesis
      by (rule exI [of _ evs], rule exI [of _ names], intro conjI)
        (rule a, rule b, rule c, rule l, rule gd, rule d, rule e, rule f)
  qed
qed

section \<open>Runs and the store\<close>

text \<open>
  \<open>successes\<close> are the specs of a log whose attempt succeeded. \<open>fresh dir f\<close> is the
  machine a run of the script starts on, with specs directory \<open>dir\<close> and state file
  \<open>f\<close>; \<open>runs\<close> is a sequence of runs of the script, each with its own environment
  and specs directory, and returns the state file at the end and the log of every run.
  \<open>stored_done\<close> is the \<^verbatim>\<open>done\<close> list that \<^verbatim>\<open>load_state\<close> reads from a state file.
\<close>

definition successes :: "event list \<Rightarrow> string list" where
  "successes evs = map fst (filter succeeded (attempts evs))"

definition fresh :: "(string \<times> string option) list option \<Rightarrow> string option \<Rightarrow> sys" where
  "fresh dir f = \<lparr>specs_dir = dir, state_file = f, calls = 0, log = []\<rparr>"

definition stored_done :: "string option \<Rightarrow> py_error + json" where
  "stored_done f = (case load_state (fresh None f) of Inl e \<Rightarrow> Inl e | Inr st \<Rightarrow> get_done st)"

fun runs :: "(env \<times> (string \<times> string option) list option) list \<Rightarrow> string option
    \<Rightarrow> string option \<times> event list list" where
  "runs [] f = (f, [])"
| "runs ((env, dir) # rest) f =
     (let w' = snd (main env (fresh dir f));
          r = runs rest (state_file w')
      in (fst r, log w' # snd r))"

text \<open>
  Claim C5. In a run that starts from a store whose \<^verbatim>\<open>done\<close> is the list \<open>vs\<close>, the store
  at the end holds \<open>vs\<close> followed by the names committed in the run, which are distinct
  and were not in \<open>vs\<close>: nothing is removed. The run writes the state file once per
  commit, and the \<open>i\<close>-th text written holds exactly one name more than the one before.
\<close>

theorem completed_set_grows:
  assumes "main env w = (out, w')" and "load_state w = Inr st" and "get_done st = Inr (JArr vs)"
  shows "\<exists>names. load_state w' = Inr (with_done (vs @ map JStr names) st)
           \<and> get_done (with_done (vs @ map JStr names) st) = Inr (JArr (vs @ map JStr names))
           \<and> distinct names
           \<and> (\<forall>n\<in>set names. JStr n \<notin> set vs)
           \<and> writes (log w') = writes (log w) @
               map (\<lambda>i. dumps (with_done (vs @ map JStr (take (Suc i) names)) st))
                 [0..<length names]"
proof -
  from main_run [OF assms] obtain evs names where
    a: "log w' = log w @ evs"
    and c: "writes evs =
        map (\<lambda>i. dumps (with_done (vs @ map JStr (take (Suc i) names)) st)) [0..<length names]"
    and l: "load_state w' = Inr (with_done (vs @ map JStr names) st)"
    and g: "get_done (with_done (vs @ map JStr names) st) = Inr (JArr (vs @ map JStr names))"
    and d: "distinct names"
    and e: "\<forall>n\<in>set names. JStr n \<notin> set vs \<and> n \<in> set (sorted_specs w)"
    by blast
  from e have e': "\<forall>n\<in>set names. JStr n \<notin> set vs" by blast
  have w: "writes (log w') = writes (log w) @
      map (\<lambda>i. dumps (with_done (vs @ map JStr (take (Suc i) names)) st)) [0..<length names]"
    using a c by simp
  show ?thesis
    by (rule exI [of _ names], intro conjI) (rule l, rule g, rule d, rule e', rule w)
qed

lemma stored_done_state_file:
  "stored_done (state_file w) = (case load_state w of Inl e \<Rightarrow> Inl e | Inr st \<Rightarrow> get_done st)"
  by (simp add: stored_done_def load_state_def fresh_def)

lemma stored_done_Inr:
  assumes "stored_done f = Inr d"
  shows "\<exists>st. load_state (fresh dir f) = Inr st \<and> get_done st = Inr d"
  using assms by (auto simp: stored_done_def load_state_def fresh_def split: sum.splits)

lemma runs_done:
  "stored_done f0 = Inr (JArr vs) \<Longrightarrow> runs rs f0 = (f, logs) \<Longrightarrow>
     stored_done f = Inr (JArr (vs @ map JStr (concat (map successes logs))))"
proof (induction rs arbitrary: f0 vs logs f)
  case Nil
  then show ?case by simp
next
  case (Cons r rs)
  obtain env dir where r: "r = (env, dir)" by (cases r)
  obtain out w' where m: "main env (fresh dir f0) = (out, w')"
    by (cases "main env (fresh dir f0)")
  obtain f1 logs1 where rr: "runs rs (state_file w') = (f1, logs1)"
    by (cases "runs rs (state_file w')")
  from Cons.prems(2) r m rr have f: "f = f1" and logs: "logs = log w' # logs1"
    by (simp_all add: Let_def)
  from stored_done_Inr [OF Cons.prems(1), of dir] obtain st where
    ld: "load_state (fresh dir f0) = Inr st" and gd: "get_done st = Inr (JArr vs)"
    by blast
  from main_run [OF m ld gd] obtain evs names where
    a: "log w' = log (fresh dir f0) @ evs"
    and b: "names = map fst (filter succeeded (attempts evs))"
    and l: "load_state w' = Inr (with_done (vs @ map JStr names) st)"
    and g: "get_done (with_done (vs @ map JStr names) st) = Inr (JArr (vs @ map JStr names))"
    by blast
  from a have lw: "log w' = evs" by (simp add: fresh_def)
  from l g have "stored_done (state_file w') = Inr (JArr (vs @ map JStr names))"
    by (simp add: stored_done_state_file)
  from Cons.IH [OF this rr] have
    "stored_done f1 = Inr (JArr ((vs @ map JStr names) @ map JStr (concat (map successes logs1))))" .
  moreover from b have "names = successes evs" by (simp add: successes_def)
  ultimately show ?case using f logs lw by simp
qed

text \<open>
  Claim C6. After any sequence of runs from a store whose \<^verbatim>\<open>done\<close> is the list \<open>vs\<close>
  (the empty list when there is no state file yet), the stored list is \<open>vs\<close> followed
  by the specs whose attempt succeeded, run after run: a name is in the store exactly
  when it was there at the start or some run holds an attempt for it in which the
  agent and then every verification command were started and all exited with 0.
\<close>

theorem completion_iff_success:
  assumes "stored_done f0 = Inr (JArr vs)" and "runs rs f0 = (f, logs)"
  shows "stored_done f = Inr (JArr (vs @ map JStr (concat (map successes logs))))
         \<and> (\<forall>n. JStr n \<in> set (vs @ map JStr (concat (map successes logs))) \<longleftrightarrow>
                JStr n \<in> set vs
                \<or> (\<exists>l\<in>set logs. \<exists>a\<in>set (attempts l). fst a = n \<and> succeeded a))"
proof -
  have "JStr n \<in> set (vs @ map JStr (concat (map successes logs))) \<longleftrightarrow>
          JStr n \<in> set vs
          \<or> (\<exists>l\<in>set logs. \<exists>a\<in>set (attempts l). fst a = n \<and> succeeded a)" for n
    by (auto simp: successes_def)
  with runs_done [OF assms] show ?thesis by blast
qed

definition env_ok :: env where
  "env_ok i cmd inp = Exited 0 [] []"

definition env_agent_fails_on_second :: env where
  "env_agent_fails_on_second i cmd inp = (if i = 3 then Exited 1 [] ''boom'' else Exited 0 [] [])"

definition example_dir :: "(string \<times> string option) list option" where
  "example_dir = Some [(''02-b.md'', Some ''second''), (''notes.txt'', Some ''n''),
                       (''01-a.md'', Some ''first'')]"

theorem completed_set_grows_witness:
  "load_state example_sys = Inr initial_state
   \<and> get_done initial_state = Inr (JArr [])
   \<and> load_state (snd (main env_ok example_sys))
        = Inr (JObj [(''done'', JArr [JStr ''01-a.md'', JStr ''02-b.md''])])
   \<and> (\<exists>names. load_state (snd (main env_ok example_sys))
          = Inr (with_done ([] @ map JStr names) initial_state)
        \<and> distinct names
        \<and> writes (log (snd (main env_ok example_sys))) = writes (log example_sys) @
             map (\<lambda>i. dumps (with_done ([] @ map JStr (take (Suc i) names)) initial_state))
               [0..<length names])"
proof -
  have m: "main env_ok example_sys = (fst (main env_ok example_sys), snd (main env_ok example_sys))"
    by simp
  have l: "load_state example_sys = Inr initial_state"
    by (simp add: load_state_def example_sys_def)
  have g: "get_done initial_state = Inr (JArr [])"
    by (simp add: initial_state_def)
  have e: "load_state (snd (main env_ok example_sys))
        = Inr (JObj [(''done'', JArr [JStr ''01-a.md'', JStr ''02-b.md''])])"
    by code_simp
  from completed_set_grows [OF m l g] obtain names where
    "load_state (snd (main env_ok example_sys)) = Inr (with_done ([] @ map JStr names) initial_state)"
    "distinct names"
    "writes (log (snd (main env_ok example_sys))) = writes (log example_sys) @
             map (\<lambda>i. dumps (with_done ([] @ map JStr (take (Suc i) names)) initial_state))
               [0..<length names]"
    by blast
  then have "\<exists>names. load_state (snd (main env_ok example_sys))
          = Inr (with_done ([] @ map JStr names) initial_state)
        \<and> distinct names
        \<and> writes (log (snd (main env_ok example_sys))) = writes (log example_sys) @
             map (\<lambda>i. dumps (with_done ([] @ map JStr (take (Suc i) names)) initial_state))
               [0..<length names]"
    by blast
  with l g e show ?thesis by blast
qed

theorem completion_iff_success_witness:
  "stored_done None = Inr (JArr [])
   \<and> map successes (snd (runs [(env_agent_fails_on_second, example_dir), (env_ok, example_dir)] None))
        = [[''01-a.md''], [''02-b.md'']]
   \<and> stored_done (fst (runs [(env_agent_fails_on_second, example_dir), (env_ok, example_dir)] None))
        = Inr (JArr [JStr ''01-a.md'', JStr ''02-b.md''])"
proof -
  let ?rs = "[(env_agent_fails_on_second, example_dir), (env_ok, example_dir)]"
  have s: "stored_done None = Inr (JArr [])"
    by (simp add: stored_done_def load_state_def fresh_def initial_state_def)
  have r: "runs ?rs None = (fst (runs ?rs None), snd (runs ?rs None))" by simp
  have e: "map successes (snd (runs ?rs None)) = [[''01-a.md''], [''02-b.md'']]"
    by code_simp
  from completion_iff_success [OF s r] e s show ?thesis by simp
qed

end
